theory Spec2Isabelle
  imports Main
begin

section \<open>Strings and the path rewriting of \<open>RouteMatcher.add\<close>\<close>

text \<open>
  Paths, methods and urls are JavaScript strings; they are modelled as \<open>string\<close>
  (lists of 8-bit characters), which covers the ASCII paths the router is used with.
\<close>

definition word_chars :: string where
  "word_chars = ''ABCDEFGHIJKLMNOPQRSTUVWXYZabcdefghijklmnopqrstuvwxyz0123456789_''"

text \<open>The character class \<open>\w\<close> of a JavaScript regular expression.\<close>

definition is_word :: "char \<Rightarrow> bool" where
  "is_word c = (c \<in> set word_chars)"

text \<open>\<open>.replace(/\*/g, ".*")\<close>: every star becomes dot star.\<close>

definition replace_star :: "string \<Rightarrow> string" where
  "replace_star p = concat (map (\<lambda>c. if c = CHR ''*'' then ''.*'' else [c]) p)"

text \<open>
  \<open>.replace(/:(\w+)/g, "([^/]+)")\<close>: scanning from the left, a colon followed by at
  least one word character is replaced, together with the longest run of word characters
  after it, by the capturing group; the scan resumes after the run.
\<close>

function replace_params :: "string \<Rightarrow> string" where
  "replace_params [] = []"
| "replace_params (c # cs) =
     (if c = CHR '':'' \<and> cs \<noteq> [] \<and> is_word (hd cs)
      then ''([^/]+)'' @ replace_params (dropWhile is_word cs)
      else c # replace_params cs)"
  by pat_completeness auto
termination
  by (relation "measure length") (auto simp: length_dropWhile_le less_Suc_eq_le)

text \<open>\<open>.replace(/\/$/, "")\<close>: one trailing slash, when there is one, is removed.\<close>

definition strip_trailing_slash :: "string \<Rightarrow> string" where
  "strip_trailing_slash s = (if s \<noteq> [] \<and> last s = CHR ''/'' then butlast s else s)"

text \<open>The regular expression source built by \<open>add\<close> in the precedence-aware matcher.\<close>

definition regexStr :: "string \<Rightarrow> string" where
  "regexStr p = ''^'' @ strip_trailing_slash (replace_params (replace_star p)) @ ''/?$''"

text \<open>The regular expression source built by \<open>add\<close> in the single-pass matcher.\<close>

definition regexStr_v0 :: "string \<Rightarrow> string" where
  "regexStr_v0 p = replace_params (replace_star p) @ ''$''"

section \<open>A fragment of JavaScript regular expressions\<close>

text \<open>
  \<open>new RegExp(s)\<close> and \<open>regex.test(url)\<close> belong to the JavaScript runtime. The model
  covers the patterns without flags that are built from literal characters, \<open>.\<close>,
  negated and plain character classes without ranges, capturing groups, alternation,
  the quantifiers \<open>*\<close>, \<open>+\<close>, \<open>?\<close> (greedy or lazy) and the assertions \<open>^\<close> and \<open>$\<close>.
  A source that uses anything else (a backslash escape, a brace, a group modifier,
  a range in a class) is reported as \<open>RegExpUnsupported\<close>; a source the runtime rejects
  is reported as \<open>RegExpSyntaxError\<close>.
\<close>

datatype error = Error string | RegExpSyntaxError | RegExpUnsupported

datatype rx =
    Eps
  | Chr char
  | AnyCh
  | Cls bool "char list"
  | Bol
  | Eol
  | Grp rx
  | Star rx
  | Plus rx
  | Opt rx
  | Seq rx rx
  | Alt rx rx

datatype qstate = NoAtom | Atom | Quantified | LazyQuantified

datatype pmode = Normal | InClass bool bool "char list"

record pframe =
  alts :: "rx list"
  items :: "rx list"
  lastq :: qstate

record pstate =
  mode :: pmode
  cur :: pframe
  stack :: "pframe list"

definition empty_frame :: pframe where
  "empty_frame = \<lparr>alts = [], items = [], lastq = NoAtom\<rparr>"

definition init_pstate :: pstate where
  "init_pstate = \<lparr>mode = Normal, cur = empty_frame, stack = []\<rparr>"

text \<open>The items of a frame are kept in reverse; so are its finished alternatives.\<close>

definition mk_seq :: "rx list \<Rightarrow> rx" where
  "mk_seq its = foldl (\<lambda>acc r. Seq r acc) Eps its"

definition close_frame :: "pframe \<Rightarrow> rx" where
  "close_frame f = foldl (\<lambda>acc a. Alt a acc) (mk_seq (items f)) (alts f)"

definition push_atom :: "rx \<Rightarrow> pstate \<Rightarrow> pstate" where
  "push_atom a st = st\<lparr>mode := Normal, cur := (cur st)\<lparr>items := a # items (cur st), lastq := Atom\<rparr>\<rparr>"

definition push_assertion :: "rx \<Rightarrow> pstate \<Rightarrow> pstate" where
  "push_assertion a st = st\<lparr>cur := (cur st)\<lparr>items := a # items (cur st), lastq := NoAtom\<rparr>\<rparr>"

definition quantify :: "(rx \<Rightarrow> rx) \<Rightarrow> pstate \<Rightarrow> error + pstate" where
  "quantify q st =
     (case items (cur st) of
        [] \<Rightarrow> Inl RegExpSyntaxError
      | a # its \<Rightarrow>
          (if lastq (cur st) = Atom
           then Inr (st\<lparr>cur := (cur st)\<lparr>items := q a # its, lastq := Quantified\<rparr>\<rparr>)
           else Inl RegExpSyntaxError))"

definition question :: "pstate \<Rightarrow> error + pstate" where
  "question st =
     (case lastq (cur st) of
        Atom \<Rightarrow> quantify Opt st
      | Quantified \<Rightarrow> Inr (st\<lparr>cur := (cur st)\<lparr>lastq := LazyQuantified\<rparr>\<rparr>)
      | LazyQuantified \<Rightarrow> Inl RegExpSyntaxError
      | NoAtom \<Rightarrow>
          (if items (cur st) = [] \<and> alts (cur st) = [] \<and> stack st \<noteq> []
           then Inl RegExpUnsupported
           else Inl RegExpSyntaxError))"

definition class_step :: "bool \<Rightarrow> bool \<Rightarrow> char list \<Rightarrow> pstate \<Rightarrow> char \<Rightarrow> error + pstate" where
  "class_step fresh neg ms st c =
     (if c = CHR '']'' then Inr (push_atom (Cls neg (rev ms)) st)
      else if c = CHR ''^'' \<and> fresh then Inr (st\<lparr>mode := InClass False True ms\<rparr>)
      else if c = CHR 0x5C \<or> c = CHR ''-'' then Inl RegExpUnsupported
      else Inr (st\<lparr>mode := InClass False neg (c # ms)\<rparr>))"

definition normal_step :: "pstate \<Rightarrow> char \<Rightarrow> error + pstate" where
  "normal_step st c =
     (if c = CHR 0x5C \<or> c = CHR ''{'' \<or> c = CHR ''}'' then Inl RegExpUnsupported
      else if c = CHR ''('' then Inr (st\<lparr>cur := empty_frame, stack := cur st # stack st\<rparr>)
      else if c = CHR '')'' then
        (case stack st of
           [] \<Rightarrow> Inl RegExpSyntaxError
         | f # fs \<Rightarrow>
             Inr (st\<lparr>cur := f\<lparr>items := Grp (close_frame (cur st)) # items f, lastq := Atom\<rparr>,
                     stack := fs\<rparr>))
      else if c = CHR ''|'' then
        Inr (st\<lparr>cur := \<lparr>alts = mk_seq (items (cur st)) # alts (cur st), items = [],
                         lastq = NoAtom\<rparr>\<rparr>)
      else if c = CHR ''*'' then quantify Star st
      else if c = CHR ''+'' then quantify Plus st
      else if c = CHR ''?'' then question st
      else if c = CHR ''^'' then Inr (push_assertion Bol st)
      else if c = CHR ''$'' then Inr (push_assertion Eol st)
      else if c = CHR ''.'' then Inr (push_atom AnyCh st)
      else if c = CHR ''['' then Inr (st\<lparr>mode := InClass True False []\<rparr>)
      else Inr (push_atom (Chr c) st))"

definition parse_step :: "pstate \<Rightarrow> char \<Rightarrow> error + pstate" where
  "parse_step st c =
     (case mode st of
        Normal \<Rightarrow> normal_step st c
      | InClass fresh neg ms \<Rightarrow> class_step fresh neg ms st c)"

fun parse_chars :: "pstate \<Rightarrow> string \<Rightarrow> error + pstate" where
  "parse_chars st [] = Inr st"
| "parse_chars st (c # cs) =
     (case parse_step st c of Inl e \<Rightarrow> Inl e | Inr st' \<Rightarrow> parse_chars st' cs)"

definition finish :: "pstate \<Rightarrow> error + rx" where
  "finish st =
     (if mode st = Normal \<and> stack st = [] then Inr (close_frame (cur st))
      else Inl RegExpSyntaxError)"

text \<open>\<open>new RegExp(s)\<close>: the compiled expression, or the error it throws.\<close>

definition RegExp :: "string \<Rightarrow> error + rx" where
  "RegExp s = (case parse_chars init_pstate s of Inl e \<Rightarrow> Inl e | Inr st \<Rightarrow> finish st)"

subsection \<open>Matching\<close>

text \<open>
  \<open>star_it f n i\<close> lists the positions reached from \<open>i\<close> by repeating a body whose end
  positions are given by \<open>f\<close>; an iteration that consumes nothing is dropped, as the
  runtime does. Positions never exceed the length \<open>n\<close> of the subject.
\<close>

function star_it :: "(nat \<Rightarrow> nat list) \<Rightarrow> nat \<Rightarrow> nat \<Rightarrow> nat list" where
  "star_it f n i = i # concat (map (star_it f n) (filter (\<lambda>j. i < j \<and> j \<le> n) (f i)))"
  by pat_completeness auto
termination
  by (relation "measure (\<lambda>(f, n, i). n - i)") auto

declare star_it.simps [simp del]

text \<open>\<open>ends r s i\<close>: the positions where a match of \<open>r\<close> that starts at \<open>i\<close> in \<open>s\<close> can end.\<close>

primrec ends :: "rx \<Rightarrow> string \<Rightarrow> nat \<Rightarrow> nat list" where
  "ends Eps s i = [i]"
| "ends (Chr c) s i = (if i < length s \<and> s ! i = c then [Suc i] else [])"
| "ends AnyCh s i =
     (if i < length s \<and> s ! i \<noteq> CHR 0x0A \<and> s ! i \<noteq> CHR 0x0D then [Suc i] else [])"
| "ends (Cls neg ms) s i =
     (if i < length s \<and> ((s ! i \<in> set ms) \<noteq> neg) then [Suc i] else [])"
| "ends Bol s i = (if i = 0 then [i] else [])"
| "ends Eol s i = (if i = length s then [i] else [])"
| "ends (Grp r) s i = ends r s i"
| "ends (Star r) s i = star_it (ends r s) (length s) i"
| "ends (Plus r) s i = concat (map (star_it (ends r s) (length s)) (ends r s i))"
| "ends (Opt r) s i = i # ends r s i"
| "ends (Seq a b) s i = concat (map (ends b s) (ends a s i))"
| "ends (Alt a b) s i = ends a s i @ ends b s i"

text \<open>\<open>regex.test(s)\<close> (no flags): some match starts at some position of \<open>s\<close>.\<close>

definition test :: "rx \<Rightarrow> string \<Rightarrow> bool" where
  "test r s = list_ex (\<lambda>i. ends r s i \<noteq> []) [0..<Suc (length s)]"

section \<open>The route table: \<open>RouteMatcher\<close>\<close>

text \<open>
  A handler of the embedded framework is a function (identified by a number) or some
  other value; the host is given a function in both cases.
\<close>

datatype handler = HFunction nat | HValue string

datatype convex_handler = RouteHandler nat | EmptyFunction

record iroute =
  http_method :: string
  path :: string
  handler :: handler

record croute =
  route :: iroute
  regex :: rx
  isWildcard :: bool

text \<open>
  \<open>add\<close> of the precedence-aware matcher. The expression is compiled before the entry
  is pushed, so a throwing \<open>new RegExp\<close> leaves the table as it was.
\<close>

definition add :: "iroute \<Rightarrow> croute list \<Rightarrow> (error + unit) \<times> croute list" where
  "add r rs =
     (let w = (CHR ''*'' \<in> set (path r)) in
      case RegExp (regexStr (path r)) of
        Inl e \<Rightarrow> (Inl e, rs)
      | Inr re \<Rightarrow> (Inr (), rs @ [\<lparr>route = r, regex = re, isWildcard = w\<rparr>]))"

text \<open>The two loops of \<open>find\<close>: non-wildcard entries first, wildcard entries second.\<close>

fun find_exact :: "croute list \<Rightarrow> string \<Rightarrow> string \<Rightarrow> string option" where
  "find_exact [] m url = None"
| "find_exact (c # cs) m url =
     (if \<not> isWildcard c \<and> http_method (route c) = m \<and> test (regex c) url
      then Some (path (route c)) else find_exact cs m url)"

fun find_wildcard :: "croute list \<Rightarrow> string \<Rightarrow> string \<Rightarrow> string option" where
  "find_wildcard [] m url = None"
| "find_wildcard (c # cs) m url =
     (if isWildcard c \<and> http_method (route c) = m \<and> test (regex c) url
      then Some (path (route c)) else find_wildcard cs m url)"

definition find_route :: "croute list \<Rightarrow> string \<Rightarrow> string \<Rightarrow> string option" where
  "find_route rs m url =
     (case find_exact rs m url of Some p \<Rightarrow> Some p | None \<Rightarrow> find_wildcard rs m url)"

definition toConvexRoutes :: "croute list \<Rightarrow> (string \<times> string \<times> convex_handler) list" where
  "toConvexRoutes rs =
     map (\<lambda>c. (path (route c), http_method (route c),
                (case handler (route c) of HFunction f \<Rightarrow> RouteHandler f
                 | HValue v \<Rightarrow> EmptyFunction))) rs"

subsection \<open>The three-pass \<open>find\<close> of the later build\<close>

text \<open>
  The build printed in the package's README has the same \<open>add\<close> and the same
  \<open>toConvexRoutes\<close>; its \<open>find\<close> first looks, with \<open>Array.find\<close>, for an entry whose
  path is the url and whose method is the requested one, and only then runs the two
  loops. Names of this build end in \<open>_v2\<close>.
\<close>

fun find_perfect :: "croute list \<Rightarrow> string \<Rightarrow> string \<Rightarrow> croute option" where
  "find_perfect [] m url = None"
| "find_perfect (c # cs) m url =
     (if path (route c) = url \<and> http_method (route c) = m then Some c
      else find_perfect cs m url)"

definition find_route_v2 :: "croute list \<Rightarrow> string \<Rightarrow> string \<Rightarrow> string option" where
  "find_route_v2 rs m url =
     (case find_perfect rs m url of
        Some c \<Rightarrow> Some (path (route c))
      | None \<Rightarrow>
          (case find_exact rs m url of Some p \<Rightarrow> Some p | None \<Rightarrow> find_wildcard rs m url))"

subsection \<open>The single-pass matcher of the earlier build\<close>

record croute_v0 =
  route_v0 :: iroute
  regex_v0 :: rx

definition add_v0 :: "iroute \<Rightarrow> croute_v0 list \<Rightarrow> (error + unit) \<times> croute_v0 list" where
  "add_v0 r rs =
     (case RegExp (regexStr_v0 (path r)) of
        Inl e \<Rightarrow> (Inl e, rs)
      | Inr re \<Rightarrow> (Inr (), rs @ [\<lparr>route_v0 = r, regex_v0 = re\<rparr>]))"

fun find_v0 :: "croute_v0 list \<Rightarrow> string \<Rightarrow> string \<Rightarrow> string option" where
  "find_v0 [] m url = None"
| "find_v0 (c # cs) m url =
     (if http_method (route_v0 c) = m \<and> test (regex_v0 c) url
      then Some (path (route_v0 c)) else find_v0 cs m url)"

section \<open>The adapter: \<open>HttpRouterWithElysia\<close>\<close>

text \<open>
  \<open>ROUTABLE_HTTP_METHODS\<close> is a constant of the host library; its members are the six
  methods of the type of \<open>toConvexRoutes\<close> in the package's declaration file.
\<close>

definition ROUTABLE_HTTP_METHODS :: "string list" where
  "ROUTABLE_HTTP_METHODS = [''GET'', ''POST'', ''PUT'', ''DELETE'', ''OPTIONS'', ''PATCH'']"

text \<open>
  The router holds the embedded app, of which only the route list matters here, and its
  own matcher, created once by the constructor.
\<close>

record router =
  app_routes :: "iroute list"
  routeMatcher :: "croute list"

definition new_router :: "iroute list \<Rightarrow> router" where
  "new_router rs = \<lparr>app_routes = rs, routeMatcher = []\<rparr>"

text \<open>The inner \<open>forEach\<close> of \<open>getRoutes\<close>, for one method; a throwing \<open>add\<close> ends it.\<close>

fun add_matching :: "string \<Rightarrow> iroute list \<Rightarrow> croute list \<Rightarrow> (error + unit) \<times> croute list" where
  "add_matching m [] t = (Inr (), t)"
| "add_matching m (r # rs) t =
     (if http_method r = m \<or> http_method r = ''ALL''
      then (case add (r\<lparr>http_method := m\<rparr>) t of
              (Inl e, t') \<Rightarrow> (Inl e, t')
            | (Inr u, t') \<Rightarrow> add_matching m rs t')
      else add_matching m rs t)"

text \<open>The outer \<open>forEach\<close>, over the routable methods.\<close>

fun add_methods :: "string list \<Rightarrow> iroute list \<Rightarrow> croute list \<Rightarrow> (error + unit) \<times> croute list" where
  "add_methods [] rs t = (Inr (), t)"
| "add_methods (m # ms) rs t =
     (case add_matching m rs t of
        (Inl e, t') \<Rightarrow> (Inl e, t')
      | (Inr u, t') \<Rightarrow> add_methods ms rs t')"

definition getRoutes ::
  "router \<Rightarrow> (error + (string \<times> string \<times> convex_handler) list) \<times> router" where
  "getRoutes r =
     (case add_methods ROUTABLE_HTTP_METHODS (app_routes r) (routeMatcher r) of
        (Inl e, t) \<Rightarrow> (Inl e, r\<lparr>routeMatcher := t\<rparr>)
      | (Inr u, t) \<Rightarrow> (Inr (toConvexRoutes t), r\<lparr>routeMatcher := t\<rparr>))"

definition normalizeMethod :: "string \<Rightarrow> string" where
  "normalizeMethod m = (if m = ''HEAD'' then ''GET'' else m)"

text \<open>
  The handler the constructor builds is one value, the same for every route; its
  behaviour is \<open>dispatch\<close> below. \<open>lookup\<close> returns it with the normalized method and the
  resolved path.
\<close>

datatype public_action = DispatchHandler

definition lookup ::
  "router \<Rightarrow> string \<Rightarrow> string \<Rightarrow> (error + public_action \<times> string \<times> string) \<times> router" where
  "lookup r p m =
     (case getRoutes r of
        (Inl e, r') \<Rightarrow> (Inl e, r')
      | (Inr ts, r') \<Rightarrow>
          (Inr (DispatchHandler, normalizeMethod m,
                (case find_route (routeMatcher r') m p of Some q \<Rightarrow> q | None \<Rightarrow> p)), r'))"

subsection \<open>Validated registration: \<open>route\<close>\<close>

text \<open>
  A key of the specification that is absent is \<open>None\<close>. The app's own \<open>route\<close> method
  is the embedded framework's; it is modelled as appending the declaration to the app's
  route list.
\<close>

record RouteSpec =
  spec_handler :: "nat option"
  spec_method :: "string option"
  spec_path :: "string option"
  spec_pathPrefix :: "string option"

definition quoted :: "string \<Rightarrow> string" where
  "quoted s = CHR 0x27 # s @ [CHR 0x27]"

definition startsWith_slash :: "string \<Rightarrow> bool" where
  "startsWith_slash s = (take 1 s = ''/'')"

definition endsWith_slash :: "string \<Rightarrow> bool" where
  "endsWith_slash s = (s \<noteq> [] \<and> last s = CHR ''/'')"

definition app_route :: "string \<Rightarrow> string \<Rightarrow> nat \<Rightarrow> router \<Rightarrow> router" where
  "app_route m p h r =
     r\<lparr>app_routes := app_routes r @ [\<lparr>http_method = m, path = p, handler = HFunction h\<rparr>]\<rparr>"

definition route_path :: "string \<Rightarrow> nat \<Rightarrow> string \<Rightarrow> bool \<Rightarrow> router \<Rightarrow> (error + unit) \<times> router" where
  "route_path m h p has_prefix r =
     (if has_prefix then
        (Inl (Error (''Invalid httpRouter route: cannot contain both '' @ quoted ''path''
                      @ '' and '' @ quoted ''pathPrefix'')), r)
      else if \<not> startsWith_slash p then
        (Inl (Error (''path '' @ quoted p @ '' does not start with a /'')), r)
      else
        (case find_route (routeMatcher r) m p of
           None \<Rightarrow> (Inr (), app_route m p h r)
         | Some q \<Rightarrow>
             (if q \<noteq> [] then
                (Inl (Error (''Path '' @ quoted p @ '' for method '' @ m @ '' already in use'')), r)
              else (Inr (), app_route m p h r))))"

definition route_pathPrefix :: "string \<Rightarrow> nat \<Rightarrow> string \<Rightarrow> router \<Rightarrow> (error + unit) \<times> router" where
  "route_pathPrefix m h pp r =
     (if \<not> startsWith_slash pp then
        (Inl (Error (''pathPrefix '' @ quoted pp @ '' does not start with a /'')), r)
      else if \<not> endsWith_slash pp then
        (Inl (Error (''pathPrefix '' @ pp @ '' must end with a /'')), r)
      else
        (case find_route (routeMatcher r) m pp of
           None \<Rightarrow> (Inr (), app_route m (pp @ ''*'') h r)
         | Some q \<Rightarrow>
             (if q \<noteq> [] \<and> q \<noteq> pp then
                (Inl (Error (''Path '' @ quoted pp @ '' for method '' @ m
                              @ '' already in use, found '' @ q)), r)
              else (Inr (), app_route m (pp @ ''*'') h r))))"

definition route_spec :: "router \<Rightarrow> RouteSpec \<Rightarrow> (error + unit) \<times> router" where
  "route_spec r0 spec =
     (case getRoutes r0 of
        (Inl e, r) \<Rightarrow> (Inl e, r)
      | (Inr ts, r) \<Rightarrow>
          (case spec_handler spec of
             None \<Rightarrow> (Inl (Error ''route requires handler''), r)
           | Some h \<Rightarrow>
               (case spec_method spec of
                  None \<Rightarrow> (Inl (Error ''route requires method''), r)
                | Some m \<Rightarrow>
                    (if m = [] then (Inl (Error ''route requires method''), r)
                     else if m \<notin> set ROUTABLE_HTTP_METHODS then
                       (Inl (Error (quoted m
                          @ '' is not an allowed HTTP method (like GET, POST, PUT etc.)'')), r)
                     else
                       (case spec_path spec of
                          Some p \<Rightarrow> route_path m h p (spec_pathPrefix spec \<noteq> None) r
                        | None \<Rightarrow>
                            (case spec_pathPrefix spec of
                               Some pp \<Rightarrow> route_pathPrefix m h pp r
                             | None \<Rightarrow> (Inr (), r)))))))"

subsection \<open>\<open>lookup\<close> and \<open>route\<close> in the later build\<close>

text \<open>
  In the build of the README \<open>getRoutes\<close>, \<open>lookup\<close> and \<open>route\<close> read as above, with
  the three-pass \<open>find\<close>; the prefix branch of \<open>route\<close> looks up the prefix followed
  by a star and compares the answer with that text.
\<close>

definition lookup_v2 ::
  "router \<Rightarrow> string \<Rightarrow> string \<Rightarrow> (error + public_action \<times> string \<times> string) \<times> router" where
  "lookup_v2 r p m =
     (case getRoutes r of
        (Inl e, r') \<Rightarrow> (Inl e, r')
      | (Inr ts, r') \<Rightarrow>
          (Inr (DispatchHandler, normalizeMethod m,
                (case find_route_v2 (routeMatcher r') m p of Some q \<Rightarrow> q | None \<Rightarrow> p)), r'))"

definition route_path_v2 :: "string \<Rightarrow> nat \<Rightarrow> string \<Rightarrow> bool \<Rightarrow> router \<Rightarrow> (error + unit) \<times> router" where
  "route_path_v2 m h p has_prefix r =
     (if has_prefix then
        (Inl (Error (''Invalid httpRouter route: cannot contain both '' @ quoted ''path''
                      @ '' and '' @ quoted ''pathPrefix'')), r)
      else if \<not> startsWith_slash p then
        (Inl (Error (''path '' @ quoted p @ '' does not start with a /'')), r)
      else
        (case find_route_v2 (routeMatcher r) m p of
           None \<Rightarrow> (Inr (), app_route m p h r)
         | Some q \<Rightarrow>
             (if q \<noteq> [] then
                (Inl (Error (''Path '' @ quoted p @ '' for method '' @ m @ '' already in use'')), r)
              else (Inr (), app_route m p h r))))"

definition route_pathPrefix_v2 :: "string \<Rightarrow> nat \<Rightarrow> string \<Rightarrow> router \<Rightarrow> (error + unit) \<times> router" where
  "route_pathPrefix_v2 m h pp r =
     (if \<not> startsWith_slash pp then
        (Inl (Error (''pathPrefix '' @ quoted pp @ '' does not start with a /'')), r)
      else if \<not> endsWith_slash pp then
        (Inl (Error (''pathPrefix '' @ pp @ '' must end with a /'')), r)
      else
        (case find_route_v2 (routeMatcher r) m (pp @ ''*'') of
           None \<Rightarrow> (Inr (), app_route m (pp @ ''*'') h r)
         | Some q \<Rightarrow>
             (if q \<noteq> [] \<and> q \<noteq> pp @ ''*'' then
                (Inl (Error (''Path '' @ quoted pp @ '' for method '' @ m
                              @ '' already in use, found '' @ q)), r)
              else (Inr (), app_route m (pp @ ''*'') h r))))"

definition route_spec_v2 :: "router \<Rightarrow> RouteSpec \<Rightarrow> (error + unit) \<times> router" where
  "route_spec_v2 r0 spec =
     (case getRoutes r0 of
        (Inl e, r) \<Rightarrow> (Inl e, r)
      | (Inr ts, r) \<Rightarrow>
          (case spec_handler spec of
             None \<Rightarrow> (Inl (Error ''route requires handler''), r)
           | Some h \<Rightarrow>
               (case spec_method spec of
                  None \<Rightarrow> (Inl (Error ''route requires method''), r)
                | Some m \<Rightarrow>
                    (if m = [] then (Inl (Error ''route requires method''), r)
                     else if m \<notin> set ROUTABLE_HTTP_METHODS then
                       (Inl (Error (quoted m
                          @ '' is not an allowed HTTP method (like GET, POST, PUT etc.)'')), r)
                     else
                       (case spec_path spec of
                          Some p \<Rightarrow> route_path_v2 m h p (spec_pathPrefix spec \<noteq> None) r
                        | None \<Rightarrow>
                            (case spec_pathPrefix spec of
                               Some pp \<Rightarrow> route_pathPrefix_v2 m h pp r
                             | None \<Rightarrow> (Inr (), r)))))))"

subsection \<open>The dispatch entry point\<close>

text \<open>
  The handler built by the constructor stores the host context in the app's decorator,
  calls the app's \<open>handle\<close> inside \<open>try\<close> and answers a failure of \<open>handle\<close> with a
  fixed response after writing the failure to the console. \<open>handle\<close> is the embedded
  framework's; it is a parameter, which returns a response or the failure it raises.
\<close>

record response =
  status :: nat
  body :: string

record ('c, 'e) host_env =
  decorator_ctx :: "'c option"
  console :: "'e list"

definition try_catch :: "'e + 'a \<Rightarrow> ('e \<Rightarrow> 's \<Rightarrow> ('e + 'a) \<times> 's) \<Rightarrow> 's \<Rightarrow> ('e + 'a) \<times> 's" where
  "try_catch res catch s = (case res of Inr v \<Rightarrow> (Inr v, s) | Inl e \<Rightarrow> catch e s)"

definition dispatch ::
  "('c option \<Rightarrow> 'q \<Rightarrow> 'e + response) \<Rightarrow> 'c \<Rightarrow> 'q \<Rightarrow> ('c, 'e) host_env
     \<Rightarrow> ('e + response) \<times> ('c, 'e) host_env" where
  "dispatch handle ctx request env =
     (let env1 = env\<lparr>decorator_ctx := Some ctx\<rparr> in
      try_catch (handle (decorator_ctx env1) request)
        (\<lambda>e s. (Inr \<lparr>status = 500, body = ''Internal Server Error''\<rparr>,
                s\<lparr>console := console s @ [e]\<rparr>))
        env1)"

section \<open>Example apps, tables and specifications\<close>

definition ex_app_a :: "iroute list" where
  "ex_app_a = [\<lparr>http_method = ''GET'', path = ''/a'', handler = HFunction 0\<rparr>]"

definition ex_spec_neither :: RouteSpec where
  "ex_spec_neither =
     \<lparr>spec_handler = Some 1, spec_method = Some ''POST'', spec_path = None,
      spec_pathPrefix = None\<rparr>"


definition users_id :: iroute where
  "users_id = \<lparr>http_method = ''GET'', path = ''/users/:id'', handler = HFunction 0\<rparr>"

definition users_star :: iroute where
  "users_star = \<lparr>http_method = ''GET'', path = ''/users/*'', handler = HFunction 1\<rparr>"

definition users_42 :: iroute where
  "users_42 = \<lparr>http_method = ''GET'', path = ''/users/42'', handler = HFunction 2\<rparr>"

definition route_b :: iroute where
  "route_b = \<lparr>http_method = ''GET'', path = ''/b'', handler = HFunction 0\<rparr>"




definition all_route :: iroute where
  "all_route = \<lparr>http_method = ''ALL'', path = ''/x'', handler = HFunction 0\<rparr>"

definition empty_route :: iroute where
  "empty_route = \<lparr>http_method = ''GET'', path = [], handler = HFunction 0\<rparr>"

definition star_route :: iroute where
  "star_route = \<lparr>http_method = ''GET'', path = ''*'', handler = HFunction 0\<rparr>"

definition two_params_route :: iroute where
  "two_params_route = \<lparr>http_method = ''GET'', path = ''/a/:b/:c'', handler = HFunction 0\<rparr>"


definition ex_app_bad :: "iroute list" where
  "ex_app_bad = [\<lparr>http_method = ''GET'', path = ''/a++'', handler = HFunction 0\<rparr>]"

text \<open>The table of a new matcher after \<open>add\<close> has been called on each route in turn.\<close>

definition table_of :: "iroute list \<Rightarrow> croute list" where
  "table_of rs = foldl (\<lambda>t r. snd (add r t)) [] rs"

section \<open>Notions used in the statements\<close>

text \<open>The test both loops of \<open>find\<close> apply to an entry, apart from the wildcard flag.\<close>

definition hit :: "string \<Rightarrow> string \<Rightarrow> croute \<Rightarrow> bool" where
  "hit m url c = (http_method (route c) = m \<and> test (regex c) url)"

text \<open>An entry is as \<open>add\<close> builds it from its route.\<close>

definition compiled :: "croute \<Rightarrow> bool" where
  "compiled c = (RegExp (regexStr (path (route c))) = Inr (regex c) \<and>
                 isWildcard c = (CHR ''*'' \<in> set (path (route c))))"

text \<open>
  The characters that are special to \<open>new RegExp\<close>; a literal path has none of them
  and no colon, so that \<open>add\<close> rewrites nothing in it but a trailing slash.
\<close>

definition meta_chars :: string where
  "meta_chars = CHR 0x5C # ''^$.*+?()[{}|''"

definition literal_path :: "string \<Rightarrow> bool" where
  "literal_path p = list_all (\<lambda>c. c \<notin> set meta_chars \<and> c \<noteq> CHR '':'') p"

definition push_chars :: "pstate \<Rightarrow> string \<Rightarrow> pstate" where
  "push_chars st s = foldl (\<lambda>st c. push_atom (Chr c) st) st s"

text \<open>The compiled form of the suffix \<open>/?$\<close>.\<close>

definition slash_end :: rx where
  "slash_end = Seq (Opt (Chr CHR ''/'')) (Seq Eol Eps)"


text \<open>The function handed to the host for a handler of the embedded framework.\<close>

definition convex_handler_of :: "handler \<Rightarrow> convex_handler" where
  "convex_handler_of h = (case h of HFunction f \<Rightarrow> RouteHandler f | HValue v \<Rightarrow> EmptyFunction)"

text \<open>
  Paths made of segments: each segment follows a slash and is a literal word or a
  parameter \<open>:name\<close>; the path may end with one more slash.
\<close>

datatype segment = Literal string | Param string

fun render :: "segment \<Rightarrow> string" where
  "render (Literal s) = s"
| "render (Param n) = CHR '':'' # n"

fun render_rx :: "segment \<Rightarrow> string" where
  "render_rx (Literal s) = s"
| "render_rx (Param n) = ''([^/]+)''"

fun wf_segment :: "segment \<Rightarrow> bool" where
  "wf_segment (Literal s) =
     (s \<noteq> [] \<and> list_all (\<lambda>c. c \<notin> set meta_chars \<and> c \<noteq> CHR '':'' \<and> c \<noteq> CHR ''/'') s)"
| "wf_segment (Param n) = (n \<noteq> [] \<and> list_all is_word n)"

definition segments_path :: "segment list \<Rightarrow> string" where
  "segments_path segs = concat (map (\<lambda>g. CHR ''/'' # render g) segs)"

definition segments_rx :: "segment list \<Rightarrow> string" where
  "segments_rx segs = concat (map (\<lambda>g. CHR ''/'' # render_rx g) segs)"

definition path_of :: "segment list \<Rightarrow> bool \<Rightarrow> string" where
  "path_of segs trailing = segments_path segs @ (if trailing then ''/'' else [])"



text \<open>An entry of the single-pass matcher is as its \<open>add\<close> builds it from its route.\<close>

definition compiled_v0 :: "croute_v0 \<Rightarrow> bool" where
  "compiled_v0 c = (RegExp (regexStr_v0 (path (route_v0 c))) = Inr (regex_v0 c))"

section \<open>Properties\<close>

subsection \<open>Shared facts\<close>

lemma getRoutes_app_routes: "app_routes (snd (getRoutes r)) = app_routes r"
  by (simp add: getRoutes_def split: prod.splits sum.splits)

subsection \<open>The dispatch boundary\<close>

text \<open>
  C8. Whatever the embedded framework's \<open>handle\<close> does, the dispatch entry point returns
  a response and never a failure. When \<open>handle\<close> fails, the response is the fixed one
  (status 500, body "Internal Server Error", the same for every failure) and the failure
  has been written to the console; when \<open>handle\<close> answers, its response is passed on.
\<close>

theorem dispatch_never_raises:
  "\<exists>resp. fst (dispatch handle ctx request env) = Inr resp \<and>
     decorator_ctx (snd (dispatch handle ctx request env)) = Some ctx \<and>
     (case handle (Some ctx) request of
        Inr v \<Rightarrow> resp = v \<and> console (snd (dispatch handle ctx request env)) = console env
      | Inl e \<Rightarrow> resp = \<lparr>status = 500, body = ''Internal Server Error''\<rparr> \<and>
          console (snd (dispatch handle ctx request env)) = console env @ [e])"
  by (simp add: dispatch_def try_catch_def Let_def split: sum.splits)

subsection \<open>Registration with neither a path nor a prefix\<close>

text \<open>
  C10, as the claim states it, fails on two counts. The refresh that opens \<open>route\<close> can
  throw: with the route \<open>/a++\<close> in the app, whose pattern the runtime rejects, the call
  raises for the specification with neither key. And the router is not unchanged: with
  GET \<open>/a\<close> in the app, the table of a new router has one entry after the call.
\<close>

theorem route_neither_refresh_visible:
  "fst (route_spec (new_router ex_app_bad) ex_spec_neither) = Inl RegExpSyntaxError \<and>
   fst (route_spec_v2 (new_router ex_app_bad) ex_spec_neither) = Inl RegExpSyntaxError \<and>
   snd (route_spec (new_router ex_app_a) ex_spec_neither) \<noteq> new_router ex_app_a \<and>
   snd (route_spec_v2 (new_router ex_app_a) ex_spec_neither) \<noteq> new_router ex_app_a \<and>
   length (routeMatcher (snd (route_spec (new_router ex_app_a) ex_spec_neither))) = 1"
  by code_simp

text \<open>
  C10, amended. A specification with a handler and a routable method but with neither
  \<open>path\<close> nor \<open>pathPrefix\<close> registers nothing, in both builds: the router after the call
  is the one the opening refresh leaves, so the app's route list is the one before the
  call; the call returns normally when the refresh goes through and raises the error of
  the refresh otherwise.
\<close>

theorem route_neither_registers_nothing:
  assumes "spec_handler spec = Some h" and "spec_method spec = Some m"
    and "m \<in> set ROUTABLE_HTTP_METHODS"
    and "spec_path spec = None" and "spec_pathPrefix spec = None"
  shows "snd (route_spec r spec) = snd (getRoutes r) \<and>
         app_routes (snd (route_spec r spec)) = app_routes r \<and>
         (\<forall>ts. fst (getRoutes r) = Inr ts \<longrightarrow> fst (route_spec r spec) = Inr ()) \<and>
         (\<forall>e. fst (getRoutes r) = Inl e \<longrightarrow> fst (route_spec r spec) = Inl e) \<and>
         snd (route_spec_v2 r spec) = snd (getRoutes r) \<and>
         app_routes (snd (route_spec_v2 r spec)) = app_routes r \<and>
         (\<forall>ts. fst (getRoutes r) = Inr ts \<longrightarrow> fst (route_spec_v2 r spec) = Inr ()) \<and>
         (\<forall>e. fst (getRoutes r) = Inl e \<longrightarrow> fst (route_spec_v2 r spec) = Inl e)"
proof -
  from assms(3) have ne: "m \<noteq> []" by (auto simp: ROUTABLE_HTTP_METHODS_def)
  obtain res r1 where g: "getRoutes r = (res, r1)" by (cases "getRoutes r")
  have 1: "route_spec r spec = (case res of Inl e \<Rightarrow> Inl e | Inr ts \<Rightarrow> Inr (), r1)"
    using assms ne g by (cases res) (simp_all add: route_spec_def)
  have 2: "route_spec_v2 r spec = (case res of Inl e \<Rightarrow> Inl e | Inr ts \<Rightarrow> Inr (), r1)"
    using assms ne g by (cases res) (simp_all add: route_spec_v2_def)
  have a: "app_routes r1 = app_routes r" using getRoutes_app_routes [of r] g by simp
  show ?thesis unfolding 1 2 g using a by (cases res) simp_all
qed

theorem route_neither_registers_nothing_witness:
  "fst (getRoutes (new_router ex_app_a)) = Inr [(''/a'', ''GET'', RouteHandler 0)] \<and>
   fst (route_spec (new_router ex_app_a) ex_spec_neither) = Inr () \<and>
   app_routes (snd (route_spec (new_router ex_app_a) ex_spec_neither))
     = app_routes (new_router ex_app_a) \<and>
   fst (route_spec_v2 (new_router ex_app_a) ex_spec_neither) = Inr ()"
proof -
  have g: "fst (getRoutes (new_router ex_app_a)) = Inr [(''/a'', ''GET'', RouteHandler 0)]"
    by code_simp
  have m: "''POST'' \<in> set ROUTABLE_HTTP_METHODS" by code_simp
  have h: "spec_handler ex_spec_neither = Some 1" by (simp add: ex_spec_neither_def)
  have sm: "spec_method ex_spec_neither = Some ''POST''" by (simp add: ex_spec_neither_def)
  have p: "spec_path ex_spec_neither = None" by (simp add: ex_spec_neither_def)
  have pp: "spec_pathPrefix ex_spec_neither = None" by (simp add: ex_spec_neither_def)
  from route_neither_registers_nothing [OF h sm m p pp, of "new_router ex_app_a"] g
  show ?thesis by blast
qed

subsection \<open>Facts about the two loops of \<open>find\<close>\<close>

lemma find_exact_find:
  "find_exact rs m url = map_option (path \<circ> route) (List.find (hit m url) (filter (\<lambda>c. \<not> isWildcard c) rs))"
  by (induction rs) (auto simp: hit_def)

lemma find_wildcard_find:
  "find_wildcard rs m url = map_option (path \<circ> route) (List.find (hit m url) (filter isWildcard rs))"
  by (induction rs) (auto simp: hit_def)

lemma find_append: "List.find P (xs @ ys) = (case List.find P xs of Some x \<Rightarrow> Some x | None \<Rightarrow> List.find P ys)"
  by (induction xs) auto

lemma find_route_find:
  "find_route rs m url = map_option (path \<circ> route)
      (List.find (hit m url) (filter (\<lambda>c. \<not> isWildcard c) rs @ filter isWildcard rs))"
  by (simp add: find_route_def find_exact_find find_wildcard_find find_append split: option.splits)

lemma find_exact_Some_iff:
  "(\<exists>p. find_exact rs m url = Some p) \<longleftrightarrow> (\<exists>c\<in>set rs. \<not> isWildcard c \<and> hit m url c)"
  by (induction rs) (auto simp: hit_def)

lemma find_wildcard_Some_iff:
  "(\<exists>p. find_wildcard rs m url = Some p) \<longleftrightarrow> (\<exists>c\<in>set rs. isWildcard c \<and> hit m url c)"
  by (induction rs) (auto simp: hit_def)

lemma find_exact_SomeD:
  "find_exact rs m url = Some p \<Longrightarrow> \<exists>c\<in>set rs. \<not> isWildcard c \<and> hit m url c \<and> path (route c) = p"
  by (induction rs) (auto simp: hit_def split: if_splits)

lemma find_wildcard_SomeD:
  "find_wildcard rs m url = Some p \<Longrightarrow> \<exists>c\<in>set rs. isWildcard c \<and> hit m url c \<and> path (route c) = p"
  by (induction rs) (auto simp: hit_def split: if_splits)

lemma find_route_SomeD:
  "find_route rs m url = Some p \<Longrightarrow> \<exists>c\<in>set rs. hit m url c \<and> path (route c) = p"
  by (auto simp: find_route_def split: option.splits dest: find_exact_SomeD find_wildcard_SomeD)

lemma find_route_None_iff:
  "find_route rs m url = None \<longleftrightarrow> (\<forall>c\<in>set rs. \<not> hit m url c)"
proof -
  have "find_route rs m url = None \<longleftrightarrow>
        \<not> (\<exists>p. find_exact rs m url = Some p) \<and> \<not> (\<exists>p. find_wildcard rs m url = Some p)"
    by (auto simp: find_route_def split: option.splits)
  then show ?thesis
    unfolding find_exact_Some_iff find_wildcard_Some_iff by blast
qed

subsection \<open>Facts about the refresh\<close>

lemma add_cases:
  "(\<exists>e. add r t = (Inl e, t)) \<or>
   (\<exists>c. add r t = (Inr (), t @ [c]) \<and> route c = r \<and> compiled c)"
  by (cases "RegExp (regexStr (path r))") (auto simp: add_def compiled_def)

lemma add_matching_new:
  "\<exists>new. snd (add_matching m rs t) = t @ new \<and>
     (\<forall>c\<in>set new. http_method (route c) = m \<and> compiled c) \<and>
     (fst (add_matching m rs t) = Inr () \<longrightarrow>
        (\<forall>r\<in>set rs. http_method r = m \<or> http_method r = ''ALL'' \<longrightarrow>
            (\<exists>c\<in>set new. route c = r\<lparr>http_method := m\<rparr>)))"
proof (induction rs arbitrary: t)
  case Nil
  show ?case by simp
next
  case (Cons r rs)
  show ?case
  proof (cases "http_method r = m \<or> http_method r = ''ALL''")
    case False
    from Cons.IH [of t] obtain new where
      "snd (add_matching m rs t) = t @ new"
      "\<forall>c\<in>set new. http_method (route c) = m \<and> compiled c"
      "fst (add_matching m rs t) = Inr () \<longrightarrow>
        (\<forall>r\<in>set rs. http_method r = m \<or> http_method r = ''ALL'' \<longrightarrow>
            (\<exists>c\<in>set new. route c = r\<lparr>http_method := m\<rparr>))"
      by blast
    with False show ?thesis by auto
  next
    case True
    from add_cases [of "r\<lparr>http_method := m\<rparr>" t] show ?thesis
    proof (elim disjE exE conjE)
      fix e assume "add (r\<lparr>http_method := m\<rparr>) t = (Inl e, t)"
      with True show ?thesis by auto
    next
      fix c assume c: "add (r\<lparr>http_method := m\<rparr>) t = (Inr (), t @ [c])"
        "route c = r\<lparr>http_method := m\<rparr>" "compiled c"
      from Cons.IH [of "t @ [c]"] obtain new where n:
        "snd (add_matching m rs (t @ [c])) = t @ [c] @ new"
        "\<forall>c\<in>set new. http_method (route c) = m \<and> compiled c"
        "fst (add_matching m rs (t @ [c])) = Inr () \<longrightarrow>
          (\<forall>r\<in>set rs. http_method r = m \<or> http_method r = ''ALL'' \<longrightarrow>
              (\<exists>c\<in>set new. route c = r\<lparr>http_method := m\<rparr>))"
        by auto
      have eq: "add_matching m (r # rs) t = add_matching m rs (t @ [c])"
        using True c by simp
      show ?thesis
        unfolding eq using n c by (intro exI [of _ "c # new"]) auto
    qed
  qed
qed

lemma add_methods_new:
  "\<exists>new. snd (add_methods ms rs t) = t @ new \<and>
     (\<forall>c\<in>set new. http_method (route c) \<in> set ms \<and> compiled c) \<and>
     (fst (add_methods ms rs t) = Inr () \<longrightarrow>
        (\<forall>m\<in>set ms. \<forall>r\<in>set rs. http_method r = m \<or> http_method r = ''ALL'' \<longrightarrow>
            (\<exists>c\<in>set new. route c = r\<lparr>http_method := m\<rparr>)))"
proof (induction ms arbitrary: t)
  case Nil
  show ?case by simp
next
  case (Cons m ms)
  from add_matching_new [of m rs t] obtain n1 where n1:
    "snd (add_matching m rs t) = t @ n1"
    "\<forall>c\<in>set n1. http_method (route c) = m \<and> compiled c"
    "fst (add_matching m rs t) = Inr () \<longrightarrow>
        (\<forall>r\<in>set rs. http_method r = m \<or> http_method r = ''ALL'' \<longrightarrow>
            (\<exists>c\<in>set n1. route c = r\<lparr>http_method := m\<rparr>))"
    by blast
  show ?case
  proof (cases "fst (add_matching m rs t)")
    case (Inl e)
    then have "add_methods (m # ms) rs t = (Inl e, t @ n1)"
      using n1(1) by (cases "add_matching m rs t") simp
    with n1 show ?thesis by (intro exI [of _ n1]) auto
  next
    case (Inr u)
    then have eq: "add_methods (m # ms) rs t = add_methods ms rs (t @ n1)"
      using n1(1) by (cases "add_matching m rs t") simp
    from Cons.IH [of "t @ n1"] obtain n2 where n2:
      "snd (add_methods ms rs (t @ n1)) = t @ n1 @ n2"
      "\<forall>c\<in>set n2. http_method (route c) \<in> set ms \<and> compiled c"
      "fst (add_methods ms rs (t @ n1)) = Inr () \<longrightarrow>
        (\<forall>m\<in>set ms. \<forall>r\<in>set rs. http_method r = m \<or> http_method r = ''ALL'' \<longrightarrow>
            (\<exists>c\<in>set n2. route c = r\<lparr>http_method := m\<rparr>))"
      by auto
    from Inr n1(3) have n1': "\<forall>r\<in>set rs. http_method r = m \<or> http_method r = ''ALL'' \<longrightarrow>
            (\<exists>c\<in>set n1. route c = r\<lparr>http_method := m\<rparr>)" by simp
    have A: "snd (add_methods ms rs (t @ n1)) = t @ (n1 @ n2)"
      using n2(1) by simp
    have B: "\<forall>c\<in>set (n1 @ n2). http_method (route c) \<in> set (m # ms) \<and> compiled c"
      using n1(2) n2(2) by auto
    have C: "fst (add_methods ms rs (t @ n1)) = Inr () \<longrightarrow>
        (\<forall>k\<in>set (m # ms). \<forall>r\<in>set rs. http_method r = k \<or> http_method r = ''ALL'' \<longrightarrow>
            (\<exists>c\<in>set (n1 @ n2). route c = r\<lparr>http_method := k\<rparr>))"
    proof (intro impI ballI)
      fix k r
      assume ok: "fst (add_methods ms rs (t @ n1)) = Inr ()" and k: "k \<in> set (m # ms)"
        and r: "r \<in> set rs" and cond: "http_method r = k \<or> http_method r = ''ALL''"
      show "\<exists>c\<in>set (n1 @ n2). route c = r\<lparr>http_method := k\<rparr>"
      proof (cases "k = m")
        case True
        with n1' r cond obtain c where "c \<in> set n1" "route c = r\<lparr>http_method := m\<rparr>"
          by blast
        with True show ?thesis by auto
      next
        case False
        with k have "k \<in> set ms" by simp
        with n2(3) ok r cond obtain c where "c \<in> set n2" "route c = r\<lparr>http_method := k\<rparr>"
          by blast
        then show ?thesis by auto
      qed
    qed
    from A B C show ?thesis unfolding eq by blast
  qed
qed

subsection \<open>Literal paths\<close>

lemma replace_star_id: "CHR ''*'' \<notin> set p \<Longrightarrow> replace_star p = p"
  by (induction p) (auto simp: replace_star_def)

lemma replace_params_id: "CHR '':'' \<notin> set p \<Longrightarrow> replace_params p = p"
  by (induction p) auto

lemma parse_chars_append:
  "parse_chars st (a @ b) = (case parse_chars st a of Inl e \<Rightarrow> Inl e | Inr st' \<Rightarrow> parse_chars st' b)"
  by (induction a arbitrary: st) (auto split: sum.splits)

lemma normal_step_plain:
  "c \<notin> set meta_chars \<Longrightarrow> normal_step st c = Inr (push_atom (Chr c) st)"
  by (simp add: normal_step_def meta_chars_def)

lemma mode_push_atom [simp]: "mode (push_atom a st) = Normal"
  by (simp add: push_atom_def)

lemma parse_chars_plain:
  "mode st = Normal \<Longrightarrow> \<forall>c\<in>set s. c \<notin> set meta_chars \<Longrightarrow> parse_chars st s = Inr (push_chars st s)"
  by (induction s arbitrary: st) (auto simp: push_chars_def parse_step_def normal_step_plain)

lemma push_chars_fields:
  "stack (push_chars st s) = stack st"
  "alts (cur (push_chars st s)) = alts (cur st)"
  "items (cur (push_chars st s)) = map Chr (rev s) @ items (cur st)"
  "s \<noteq> [] \<Longrightarrow> lastq (cur (push_chars st s)) = Atom"
  "s \<noteq> [] \<Longrightarrow> mode (push_chars st s) = Normal"
  "mode st = Normal \<Longrightarrow> mode (push_chars st s) = Normal"
  by (induction s arbitrary: st rule: rev_induct) (auto simp: push_chars_def push_atom_def)

lemma mk_seq_foldr: "mk_seq its = foldr Seq (rev its) Eps"
  by (simp add: mk_seq_def foldr_conv_foldl)

lemma parse_tail:
  "mode st = Normal \<Longrightarrow>
   parse_chars st ''/?$'' =
     Inr (st\<lparr>cur := (cur st)\<lparr>items := Eol # Opt (Chr CHR ''/'') # items (cur st), lastq := NoAtom\<rparr>\<rparr>)"
  by (simp add: parse_step_def normal_step_def push_atom_def question_def quantify_def
      push_assertion_def)

lemma parse_head:
  "parse_step init_pstate CHR ''^'' =
     Inr \<lparr>mode = Normal, cur = \<lparr>alts = [], items = [Bol], lastq = NoAtom\<rparr>, stack = []\<rparr>"
  by (simp add: parse_step_def normal_step_def init_pstate_def empty_frame_def push_assertion_def)

lemma RegExp_literal:
  assumes "\<forall>c\<in>set s. c \<notin> set meta_chars"
  shows "RegExp (''^'' @ s @ ''/?$'') = Inr (Seq Bol (foldr Seq (map Chr s) slash_end))"
proof -
  let ?st1 = "\<lparr>mode = Normal, cur = \<lparr>alts = [], items = [Bol], lastq = NoAtom\<rparr>, stack = []\<rparr>"
  let ?st2 = "push_chars ?st1 s"
  have m2: "mode ?st2 = Normal" by (simp add: push_chars_fields)
  have "parse_chars init_pstate (''^'' @ s @ ''/?$'') = parse_chars ?st1 (s @ ''/?$'')"
    by (simp add: parse_head)
  also have "\<dots> = parse_chars ?st2 ''/?$''"
    by (simp only: parse_chars_append) (simp add: parse_chars_plain assms)
  finally have pc: "parse_chars init_pstate (''^'' @ s @ ''/?$'') =
     Inr (?st2\<lparr>cur := (cur ?st2)\<lparr>items := Eol # Opt (Chr CHR ''/'') # items (cur ?st2), lastq := NoAtom\<rparr>\<rparr>)"
    by (simp only: parse_tail [OF m2])
  show ?thesis
    unfolding RegExp_def pc
    by (simp add: finish_def m2 push_chars_fields close_frame_def mk_seq_foldr slash_end_def rev_map)
qed

lemma ends_literal:
  "ends (foldr Seq (map Chr s) k) u i =
     (if take (length s) (drop i u) = s then ends k u (i + length s) else [])"
proof (induction s arbitrary: i)
  case Nil
  then show ?case by simp
next
  case (Cons c s)
  show ?case
  proof (cases "i < length u \<and> u ! i = c")
    case True
    then have "drop i u = c # drop (Suc i) u" by (metis Cons_nth_drop_Suc)
    with True show ?thesis by (simp add: Cons.IH)
  next
    case False
    have "take (Suc (length s)) (drop i u) \<noteq> c # s"
    proof
      assume eq: "take (Suc (length s)) (drop i u) = c # s"
      then have "drop i u \<noteq> []" by auto
      then have il: "i < length u" by simp
      then have "drop i u = u ! i # drop (Suc i) u" by (metis Cons_nth_drop_Suc)
      with eq have "u ! i = c" by simp
      with il False show False by simp
    qed
    with False show ?thesis by auto
  qed
qed


lemma ends_slash_end:
  "ends slash_end u j \<noteq> [] \<longleftrightarrow> j = length u \<or> (Suc j = length u \<and> u ! j = CHR ''/'')"
  by (auto simp: slash_end_def)

lemma test_literal:
  "test (Seq Bol (foldr Seq (map Chr s) slash_end)) u \<longleftrightarrow> u = s \<or> u = s @ ''/''"
proof -
  have "test (Seq Bol (foldr Seq (map Chr s) slash_end)) u \<longleftrightarrow>
        ends (foldr Seq (map Chr s) slash_end) u 0 \<noteq> []"
    by (auto simp: test_def list_ex_iff)
  also have "\<dots> \<longleftrightarrow> take (length s) u = s \<and>
      (length s = length u \<or> (Suc (length s) = length u \<and> u ! length s = CHR ''/''))"
    by (simp add: ends_literal ends_slash_end del: ends.simps)
  also have "\<dots> \<longleftrightarrow> u = s \<or> u = s @ ''/''"
  proof
    assume h: "take (length s) u = s \<and>
      (length s = length u \<or> (Suc (length s) = length u \<and> u ! length s = CHR ''/''))"
    then show "u = s \<or> u = s @ ''/''"
    proof (elim conjE disjE)
      assume "take (length s) u = s" "length s = length u"
      then show ?thesis by (metis take_all order_refl)
    next
      assume a: "take (length s) u = s" "Suc (length s) = length u" "u ! length s = CHR ''/''"
      then have "u = take (length s) u @ [u ! length s]"
        by (metis take_Suc_conv_app_nth take_all lessI order_refl)
      with a show ?thesis by simp
    qed
  next
    assume "u = s \<or> u = s @ ''/''"
    then show "take (length s) u = s \<and>
      (length s = length u \<or> (Suc (length s) = length u \<and> u ! length s = CHR ''/''))"
      by auto
  qed
  finally show ?thesis .
qed

subsection \<open>More facts about \<open>find\<close> and about literal paths\<close>

lemma find_exact_append:
  "find_exact (xs @ ys) m url =
     (case find_exact xs m url of Some p \<Rightarrow> Some p | None \<Rightarrow> find_exact ys m url)"
  by (induction xs) auto

lemma find_wildcard_append:
  "find_wildcard (xs @ ys) m url =
     (case find_wildcard xs m url of Some p \<Rightarrow> Some p | None \<Rightarrow> find_wildcard ys m url)"
  by (induction xs) auto

lemma find_exact_None_iff:
  "find_exact rs m url = None \<longleftrightarrow> (\<forall>c\<in>set rs. isWildcard c \<or> \<not> hit m url c)"
  using find_exact_Some_iff [of rs m url] by auto

lemma strip_trailing_slash_cases:
  "p = strip_trailing_slash p \<or> p = strip_trailing_slash p @ ''/''"
proof (cases "p \<noteq> [] \<and> last p = CHR ''/''")
  case True
  then have "p = butlast p @ ''/''" by (metis append_butlast_last_id)
  moreover from True have "strip_trailing_slash p = butlast p"
    by (simp add: strip_trailing_slash_def)
  ultimately show ?thesis by simp
next
  case False
  then show ?thesis by (auto simp: strip_trailing_slash_def)
qed

lemma set_strip_trailing_slash: "set (strip_trailing_slash p) \<subseteq> set p"
  by (auto simp: strip_trailing_slash_def dest: in_set_butlastD)

lemma regexStr_literal:
  "literal_path p \<Longrightarrow> regexStr p = ''^'' @ strip_trailing_slash p @ ''/?$''"
proof -
  assume l: "literal_path p"
  have "CHR ''*'' \<in> set meta_chars" by (simp add: meta_chars_def)
  with l have "CHR ''*'' \<notin> set p" and "CHR '':'' \<notin> set p"
    by (auto simp: literal_path_def list_all_iff)
  then show ?thesis by (simp add: regexStr_def replace_star_id replace_params_id)
qed

lemma RegExp_regexStr_literal:
  assumes "literal_path p"
  shows "RegExp (regexStr p) =
     Inr (Seq Bol (foldr Seq (map Chr (strip_trailing_slash p)) slash_end))"
proof -
  have "\<forall>c\<in>set (strip_trailing_slash p). c \<notin> set meta_chars"
    using assms set_strip_trailing_slash [of p] by (auto simp: literal_path_def list_all_iff)
  then show ?thesis
    unfolding regexStr_literal [OF assms] by (rule RegExp_literal)
qed

lemma compiled_literal:
  assumes "compiled c" and "literal_path (path (route c))"
  shows "\<not> isWildcard c"
    and "test (regex c) url \<longleftrightarrow>
           url = strip_trailing_slash (path (route c)) \<or>
           url = strip_trailing_slash (path (route c)) @ ''/''"
proof -
  have "CHR ''*'' \<in> set meta_chars" by (simp add: meta_chars_def)
  with assms show "\<not> isWildcard c"
    by (auto simp: compiled_def literal_path_def list_all_iff)
  from assms have "regex c = Seq Bol (foldr Seq (map Chr (strip_trailing_slash (path (route c)))) slash_end)"
    by (simp add: compiled_def RegExp_regexStr_literal)
  then show "test (regex c) url \<longleftrightarrow>
           url = strip_trailing_slash (path (route c)) \<or>
           url = strip_trailing_slash (path (route c)) @ ''/''"
    by (simp only: test_literal)
qed

subsection \<open>Precedence of non-wildcard declarations\<close>

lemma find_perfect_SomeD:
  "find_perfect rs m url = Some d \<Longrightarrow>
     d \<in> set rs \<and> path (route d) = url \<and> http_method (route d) = m"
  by (induction rs) (auto split: if_splits)

lemma find_perfect_None_iff:
  "find_perfect rs m url = None \<longleftrightarrow>
     (\<forall>c\<in>set rs. path (route c) \<noteq> url \<or> http_method (route c) \<noteq> m)"
  by (induction rs) auto

lemma find_perfect_find:
  "find_perfect rs m url = List.find (\<lambda>c. path (route c) = url \<and> http_method (route c) = m) rs"
  by (induction rs) auto

lemma find_route_v2_literal:
  assumes "c \<in> set rs" and "http_method (route c) = m"
  shows "find_route_v2 rs m (path (route c)) = Some (path (route c))"
proof -
  from assms have "find_perfect rs m (path (route c)) \<noteq> None"
    by (auto simp: find_perfect_None_iff)
  then obtain d where d: "find_perfect rs m (path (route c)) = Some d" by auto
  from find_perfect_SomeD [OF d] have "path (route d) = path (route c)" by simp
  with d show ?thesis by (simp add: find_route_v2_def)
qed

lemma find_route_v2_no_literal:
  "\<forall>c\<in>set rs. path (route c) \<noteq> url \<or> http_method (route c) \<noteq> m \<Longrightarrow>
   find_route_v2 rs m url = find_route rs m url"
  by (simp add: find_route_v2_def find_route_def find_perfect_None_iff [THEN iffD2])

lemma find_route_wildcard_only:
  assumes c: "c \<in> set rs" and w: "isWildcard c"
    and f: "find_route rs m url = Some (path (route c))"
    and fl: "\<forall>d\<in>set rs. isWildcard d = (CHR ''*'' \<in> set (path (route d)))"
    and d: "d \<in> set rs" "\<not> isWildcard d"
  shows "\<not> hit m url d"
proof
  assume "hit m url d"
  with d have "\<exists>p. find_exact rs m url = Some p" by (auto simp: find_exact_Some_iff)
  then obtain p where p: "find_exact rs m url = Some p" ..
  then have "find_route rs m url = Some p" by (simp add: find_route_def)
  with f have pe: "p = path (route c)" by simp
  from find_exact_SomeD [OF p] obtain e where "e \<in> set rs" "\<not> isWildcard e" "path (route e) = p"
    by blast
  with fl c w pe show False by metis
qed

text \<open>
  C5, as the claim states it, fails on the three-pass build: with \<open>/users/:id\<close> and
  \<open>/users/*\<close> registered for GET, the url \<open>/users/*\<close> is matched by the pattern of the
  non-wildcard entry, and yet \<open>find\<close> answers the path of the wildcard entry, which the
  pass for literal equality finds first.
\<close>

theorem literal_pass_answers_wildcard:
  "\<not> isWildcard (table_of [users_id, users_star] ! 0) \<and>
   hit ''GET'' ''/users/*'' (table_of [users_id, users_star] ! 0) \<and>
   isWildcard (table_of [users_id, users_star] ! 1) \<and>
   find_route_v2 (table_of [users_id, users_star]) ''GET'' ''/users/*''
     = Some (path (route (table_of [users_id, users_star] ! 1)))"
  by code_simp

text \<open>
  C5, amended. The three-pass \<open>find\<close> answers the url itself when an entry with the
  requested method has the url as its path; otherwise, and always in the two-loop build,
  \<open>find\<close> answers with the first entry that passes the test in the list made of all
  non-wildcard entries, in registration order, followed by all wildcard entries, in
  registration order. So, in a table whose wildcard flags are those \<open>add\<close> sets, the path
  of a wildcard entry is returned only if no non-wildcard entry with the requested method
  matches the url, or (three-pass build) some entry with that method has the url as its
  path. With \<open>/users/:id\<close> and \<open>/users/*\<close> registered for GET, in either order and in
  both builds, \<open>/users/7\<close> resolves to \<open>/users/:id\<close> and \<open>/users/7/posts\<close> to \<open>/users/*\<close>.
\<close>

theorem find_precedence_after_literal_pass:
  "find_route_v2 rs m url =
     (case List.find (\<lambda>c. path (route c) = url \<and> http_method (route c) = m) rs of
        Some c \<Rightarrow> Some url
      | None \<Rightarrow> map_option (path \<circ> route)
          (List.find (hit m url) (filter (\<lambda>c. \<not> isWildcard c) rs @ filter isWildcard rs)))
   \<and> find_route rs m url = map_option (path \<circ> route)
      (List.find (hit m url) (filter (\<lambda>c. \<not> isWildcard c) rs @ filter isWildcard rs))
   \<and> (\<forall>c\<in>set rs. isWildcard c \<and> find_route_v2 rs m url = Some (path (route c))
        \<and> (\<forall>d\<in>set rs. isWildcard d = (CHR ''*'' \<in> set (path (route d))))
        \<and> (\<forall>d\<in>set rs. path (route d) \<noteq> url \<or> http_method (route d) \<noteq> m)
        \<longrightarrow> (\<forall>d\<in>set rs. \<not> isWildcard d \<longrightarrow> \<not> hit m url d))
   \<and> (\<forall>c\<in>set rs. isWildcard c \<and> find_route rs m url = Some (path (route c))
        \<and> (\<forall>d\<in>set rs. isWildcard d = (CHR ''*'' \<in> set (path (route d))))
        \<longrightarrow> (\<forall>d\<in>set rs. \<not> isWildcard d \<longrightarrow> \<not> hit m url d))
   \<and> find_route_v2 (table_of [users_id, users_star]) ''GET'' ''/users/7'' = Some ''/users/:id''
   \<and> find_route_v2 (table_of [users_id, users_star]) ''GET'' ''/users/7/posts'' = Some ''/users/*''
   \<and> find_route_v2 (table_of [users_star, users_id]) ''GET'' ''/users/7'' = Some ''/users/:id''
   \<and> find_route_v2 (table_of [users_star, users_id]) ''GET'' ''/users/7/posts'' = Some ''/users/*''
   \<and> find_route (table_of [users_id, users_star]) ''GET'' ''/users/7'' = Some ''/users/:id''
   \<and> find_route (table_of [users_id, users_star]) ''GET'' ''/users/7/posts'' = Some ''/users/*''
   \<and> find_route (table_of [users_star, users_id]) ''GET'' ''/users/7'' = Some ''/users/:id''
   \<and> find_route (table_of [users_star, users_id]) ''GET'' ''/users/7/posts'' = Some ''/users/*''"
proof -
  have 1: "find_route_v2 rs m url =
     (case List.find (\<lambda>c. path (route c) = url \<and> http_method (route c) = m) rs of
        Some c \<Rightarrow> Some url
      | None \<Rightarrow> map_option (path \<circ> route)
          (List.find (hit m url) (filter (\<lambda>c. \<not> isWildcard c) rs @ filter isWildcard rs)))"
  proof (cases "find_perfect rs m url")
    case None
    then show ?thesis
      by (simp add: find_route_v2_def find_perfect_find [symmetric]
          find_route_find [unfolded find_route_def])
  next
    case (Some d)
    from find_perfect_SomeD [OF Some] Some show ?thesis
      by (simp add: find_route_v2_def find_perfect_find [symmetric])
  qed
  have 2: "find_route rs m url = map_option (path \<circ> route)
      (List.find (hit m url) (filter (\<lambda>c. \<not> isWildcard c) rs @ filter isWildcard rs))"
    by (rule find_route_find)
  have 4: "\<forall>c\<in>set rs. isWildcard c \<and> find_route rs m url = Some (path (route c))
        \<and> (\<forall>d\<in>set rs. isWildcard d = (CHR ''*'' \<in> set (path (route d))))
        \<longrightarrow> (\<forall>d\<in>set rs. \<not> isWildcard d \<longrightarrow> \<not> hit m url d)"
    using find_route_wildcard_only [of _ rs m url] by blast
  have 3: "\<forall>c\<in>set rs. isWildcard c \<and> find_route_v2 rs m url = Some (path (route c))
        \<and> (\<forall>d\<in>set rs. isWildcard d = (CHR ''*'' \<in> set (path (route d))))
        \<and> (\<forall>d\<in>set rs. path (route d) \<noteq> url \<or> http_method (route d) \<noteq> m)
        \<longrightarrow> (\<forall>d\<in>set rs. \<not> isWildcard d \<longrightarrow> \<not> hit m url d)"
  proof (intro ballI impI)
    fix c d
    assume c: "c \<in> set rs" and d: "d \<in> set rs" "\<not> isWildcard d"
      and h: "isWildcard c \<and> find_route_v2 rs m url = Some (path (route c))
        \<and> (\<forall>d\<in>set rs. isWildcard d = (CHR ''*'' \<in> set (path (route d))))
        \<and> (\<forall>d\<in>set rs. path (route d) \<noteq> url \<or> http_method (route d) \<noteq> m)"
    from h have nl: "\<forall>d\<in>set rs. path (route d) \<noteq> url \<or> http_method (route d) \<noteq> m"
      by blast
    from h have "find_route_v2 rs m url = Some (path (route c))" by blast
    then have "find_route rs m url = Some (path (route c))"
      by (simp only: find_route_v2_no_literal [OF nl])
    with h c d show "\<not> hit m url d"
      using find_route_wildcard_only [of c rs m url d] by blast
  qed
  have 5: "find_route_v2 (table_of [users_id, users_star]) ''GET'' ''/users/7'' = Some ''/users/:id''"
    by code_simp
  have 6: "find_route_v2 (table_of [users_id, users_star]) ''GET'' ''/users/7/posts'' = Some ''/users/*''"
    by code_simp
  have 7: "find_route_v2 (table_of [users_star, users_id]) ''GET'' ''/users/7'' = Some ''/users/:id''"
    by code_simp
  have 8: "find_route_v2 (table_of [users_star, users_id]) ''GET'' ''/users/7/posts'' = Some ''/users/*''"
    by code_simp
  have 9: "find_route (table_of [users_id, users_star]) ''GET'' ''/users/7'' = Some ''/users/:id''"
    by code_simp
  have 10: "find_route (table_of [users_id, users_star]) ''GET'' ''/users/7/posts'' = Some ''/users/*''"
    by code_simp
  have 11: "find_route (table_of [users_star, users_id]) ''GET'' ''/users/7'' = Some ''/users/:id''"
    by code_simp
  have 12: "find_route (table_of [users_star, users_id]) ''GET'' ''/users/7/posts'' = Some ''/users/*''"
    by code_simp
  from 1 2 3 4 5 6 7 8 9 10 11 12 show ?thesis by (intro conjI)
qed

theorem find_precedence_after_literal_pass_witness:
  "isWildcard (table_of [users_id, users_star] ! 1) \<and>
   find_route_v2 (table_of [users_id, users_star]) ''GET'' ''/users/7/posts''
     = Some (path (route (table_of [users_id, users_star] ! 1))) \<and>
   \<not> isWildcard (table_of [users_id, users_star] ! 0) \<and>
   \<not> hit ''GET'' ''/users/7/posts'' (table_of [users_id, users_star] ! 0)"
proof -
  let ?T = "table_of [users_id, users_star]"
  have a: "isWildcard (?T ! 1)" by code_simp
  have b: "find_route_v2 ?T ''GET'' ''/users/7/posts'' = Some (path (route (?T ! 1)))"
    by code_simp
  have c: "\<forall>d\<in>set ?T. isWildcard d = (CHR ''*'' \<in> set (path (route d)))" by code_simp
  have n: "\<forall>d\<in>set ?T. path (route d) \<noteq> ''/users/7/posts'' \<or> http_method (route d) \<noteq> ''GET''"
    by code_simp
  have d: "?T ! 1 \<in> set ?T" by code_simp
  have e: "?T ! 0 \<in> set ?T" by code_simp
  have f: "\<not> isWildcard (?T ! 0)" by code_simp
  from find_precedence_after_literal_pass [of ?T "''GET''" "''/users/7/posts''"] a b c n d e f
  have "\<not> hit ''GET'' ''/users/7/posts'' (?T ! 0)" by blast
  with a b f show ?thesis by blast
qed


subsection \<open>The pass for literal equality\<close>

text \<open>
  C2 at a failing input: with \<open>/users/:id\<close>, \<open>/users/*\<close> and \<open>/users/42\<close> registered for
  GET in that order, the third entry has the path \<open>/users/42\<close> and the method GET; the
  two-loop \<open>find\<close> answers \<open>/users/:id\<close> for the url \<open>/users/42\<close>, while the three-pass
  \<open>find\<close> of the later build answers \<open>/users/42\<close>, as it does for every entry whose path
  is the url (lemma \<open>find_route_v2_literal\<close>).
\<close>

theorem two_loop_find_skips_literal:
  "path (route (table_of [users_id, users_star, users_42] ! 2)) = ''/users/42'' \<and>
   http_method (route (table_of [users_id, users_star, users_42] ! 2)) = ''GET'' \<and>
   find_route (table_of [users_id, users_star, users_42]) ''GET'' ''/users/42''
     = Some ''/users/:id'' \<and>
   find_route_v2 (table_of [users_id, users_star, users_42]) ''GET'' ''/users/42''
     = Some ''/users/42''"
  by code_simp

subsection \<open>HEAD lookups\<close>

text \<open>
  No entry of the table ever carries the method HEAD, so a lookup for HEAD never
  resolves a path, whatever the app holds.
\<close>

lemma normalizeMethod_cases:
  "normalizeMethod ''HEAD'' = ''GET''"
  "m \<noteq> ''HEAD'' \<Longrightarrow> normalizeMethod m = m"
  by (simp_all add: normalizeMethod_def)

lemma routeMatcher_getRoutes:
  "routeMatcher (snd (getRoutes r)) =
     snd (add_methods ROUTABLE_HTTP_METHODS (app_routes r) (routeMatcher r))"
  by (cases "add_methods ROUTABLE_HTTP_METHODS (app_routes r) (routeMatcher r)")
     (auto simp: getRoutes_def split: sum.splits)

lemma lookup_head_unresolved:
  assumes inv: "\<forall>c\<in>set (routeMatcher r). http_method (route c) \<in> set ROUTABLE_HTTP_METHODS"
    and res: "fst (lookup r p ''HEAD'') = Inr x"
  shows "x = (DispatchHandler, ''GET'', p)"
proof -
  from add_methods_new [of ROUTABLE_HTTP_METHODS "app_routes r" "routeMatcher r"] obtain new where
    n: "snd (add_methods ROUTABLE_HTTP_METHODS (app_routes r) (routeMatcher r)) = routeMatcher r @ new"
       "\<forall>c\<in>set new. http_method (route c) \<in> set ROUTABLE_HTTP_METHODS \<and> compiled c"
    by blast
  have t: "routeMatcher (snd (getRoutes r)) = routeMatcher r @ new"
    using n(1) by (simp only: routeMatcher_getRoutes)
  have "''HEAD'' \<notin> set ROUTABLE_HTTP_METHODS" by (simp add: ROUTABLE_HTTP_METHODS_def)
  with inv n(2) have "\<forall>c\<in>set (routeMatcher r @ new). \<not> hit ''HEAD'' p c"
    by (auto simp: hit_def)
  then have "find_route (routeMatcher (snd (getRoutes r))) ''HEAD'' p = None"
    unfolding t find_route_None_iff .
  with res show ?thesis
    by (cases "getRoutes r") (auto simp: lookup_def normalizeMethod_def split: sum.splits)
qed

lemma lookup_v2_head_unresolved_example:
  "fst (lookup_v2 (new_router [users_id]) ''/users/7'' ''HEAD'')
     = Inr (DispatchHandler, ''GET'', ''/users/7'')"
  by code_simp

text \<open>
  C3 at a failing input: with \<open>/users/:id\<close> registered for GET, the lookup of
  \<open>/users/7\<close> for HEAD reports the method GET but leaves the path unresolved, while the
  lookup for GET resolves it to \<open>/users/:id\<close>: \<open>find\<close> is called with the method as
  given, not with the normalized one.
\<close>

theorem lookup_head_skips_get_routes:
  "fst (lookup (new_router [users_id]) ''/users/7'' ''HEAD'')
     = Inr (DispatchHandler, ''GET'', ''/users/7'') \<and>
   fst (lookup (new_router [users_id]) ''/users/7'' ''GET'')
     = Inr (DispatchHandler, ''GET'', ''/users/:id'')"
  by code_simp

subsection \<open>Refreshing twice\<close>

text \<open>
  The entries a refresh appends do not depend on the table it appends to. So on a new
  router a second \<open>getRoutes\<close> returns every tuple of the first one twice, while the
  answers of \<open>find\<close> stay the same.
\<close>

lemma add_shift: "add r (t @ u) = (fst (add r u), t @ snd (add r u))"
  by (simp add: add_def Let_def split: sum.splits)

lemma add_matching_shift:
  "add_matching m rs (t @ u) = (fst (add_matching m rs u), t @ snd (add_matching m rs u))"
proof (induction rs arbitrary: u)
  case Nil
  show ?case by simp
next
  case (Cons r rs)
  show ?case
  proof (cases "http_method r = m \<or> http_method r = ''ALL''")
    case False
    with Cons.IH [of u] show ?thesis by simp
  next
    case True
    show ?thesis
    proof (cases "add (r\<lparr>http_method := m\<rparr>) u")
      case (Pair res u')
      then have s: "add (r\<lparr>http_method := m\<rparr>) (t @ u) = (res, t @ u')"
        by (simp add: add_shift)
      show ?thesis
      proof (cases res)
        case (Inl e)
        with True Pair s show ?thesis by simp
      next
        case (Inr x)
        with True Pair s Cons.IH [of u'] show ?thesis by simp
      qed
    qed
  qed
qed

lemma add_methods_shift:
  "add_methods ms rs (t @ u) = (fst (add_methods ms rs u), t @ snd (add_methods ms rs u))"
proof (induction ms arbitrary: u)
  case Nil
  show ?case by simp
next
  case (Cons m ms)
  show ?case
  proof (cases "add_matching m rs u")
    case (Pair res u')
    then have s: "add_matching m rs (t @ u) = (res, t @ u')"
      by (simp add: add_matching_shift)
    show ?thesis
    proof (cases res)
      case (Inl e)
      with Pair s show ?thesis by simp
    next
      case (Inr x)
      with Pair s Cons.IH [of u'] show ?thesis by simp
    qed
  qed
qed

lemma getRoutes_twice:
  assumes "fst (getRoutes (new_router rs)) = Inr ts"
  shows "fst (getRoutes (snd (getRoutes (new_router rs)))) = Inr (ts @ ts)"
proof -
  obtain res t where a: "add_methods ROUTABLE_HTTP_METHODS rs [] = (res, t)"
    by (cases "add_methods ROUTABLE_HTTP_METHODS rs []")
  with assms have res: "res = Inr ()" and ts: "ts = toConvexRoutes t"
    by (auto simp: getRoutes_def new_router_def split: sum.splits)
  have r1: "snd (getRoutes (new_router rs)) = \<lparr>app_routes = rs, routeMatcher = t\<rparr>"
    using a res by (simp add: getRoutes_def new_router_def)
  have "add_methods ROUTABLE_HTTP_METHODS rs (t @ []) = (Inr (), t @ t)"
    using a res by (simp only: add_methods_shift) simp
  then show ?thesis
    unfolding r1 by (simp add: getRoutes_def ts toConvexRoutes_def)
qed

lemma find_route_duplicated: "find_route (t @ t) m url = find_route t m url"
  by (simp add: find_route_def find_exact_append find_wildcard_append split: option.splits)

text \<open>
  C1 at a failing input: the matcher is created once and never emptied, so a second
  \<open>getRoutes\<close> on an app with the single route GET \<open>/a\<close> returns that route twice.
\<close>

theorem getRoutes_twice_duplicates:
  "fst (getRoutes (new_router ex_app_a)) = Inr [(''/a'', ''GET'', RouteHandler 0)] \<and>
   fst (getRoutes (snd (getRoutes (new_router ex_app_a))))
     = Inr [(''/a'', ''GET'', RouteHandler 0), (''/a'', ''GET'', RouteHandler 0)] \<and>
   length (routeMatcher (snd (getRoutes (snd (getRoutes (new_router ex_app_a)))))) = 2"
  by code_simp

subsection \<open>Anchoring of the compiled pattern\<close>

text \<open>
  C4 at a failing input: the single-pass matcher compiles \<open>/b\<close> to \<open>/b$\<close>, which is
  not anchored at the start, so the url \<open>/a/b\<close> resolves to the route \<open>/b\<close>; the
  precedence-aware matcher, whose pattern starts with \<open>^\<close>, finds nothing for that url.
\<close>

theorem add_v0_matches_inside_url:
  "fst (add_v0 route_b []) = Inr () \<and>
   find_v0 (snd (add_v0 route_b [])) ''GET'' ''/a/b'' = Some ''/b'' \<and>
   find_route (table_of [route_b]) ''GET'' ''/a/b'' = None"
  by code_simp

subsection \<open>Violations of the preconditions of \<open>route\<close>\<close>
















subsection \<open>Expansion of the method ALL\<close>

text \<open>
  C7. When \<open>getRoutes\<close> goes through on an app that holds a route declared for ALL, the
  entries it appends all carry a routable method, never ALL; for each routable method
  there is an appended entry for that route with that method, the returned tuples hold
  the route under that method, and \<open>find\<close> for that method answers for every url the
  route's pattern matches. \<open>find\<close> itself only answers with entries whose stored method
  equals the requested one: a table holding the unexpanded route does not match GET.
\<close>

theorem all_expanded_at_refresh:
  assumes ok: "fst (getRoutes r) = Inr ts"
    and a: "a \<in> set (app_routes r)" and all: "http_method a = ''ALL''"
  shows "\<exists>new. routeMatcher (snd (getRoutes r)) = routeMatcher r @ new \<and>
      (\<forall>c\<in>set new. http_method (route c) \<in> set ROUTABLE_HTTP_METHODS \<and>
                     http_method (route c) \<noteq> ''ALL'') \<and>
      (\<forall>m\<in>set ROUTABLE_HTTP_METHODS.
          (\<exists>c\<in>set new. route c = a\<lparr>http_method := m\<rparr> \<and> compiled c) \<and>
          (path a, m, convex_handler_of (handler a)) \<in> set ts \<and>
          (\<forall>url re. RegExp (regexStr (path a)) = Inr re \<and> test re url \<longrightarrow>
              find_route (routeMatcher (snd (getRoutes r))) m url \<noteq> None)) \<and>
      (\<forall>t m url p. find_route t m url = Some p \<longrightarrow>
          (\<exists>c\<in>set t. http_method (route c) = m \<and> path (route c) = p)) \<and>
      find_route (table_of [all_route]) ''GET'' ''/x'' = None"
proof -
  let ?ms = ROUTABLE_HTTP_METHODS
  from add_methods_new [of ?ms "app_routes r" "routeMatcher r"] obtain new where n:
    "snd (add_methods ?ms (app_routes r) (routeMatcher r)) = routeMatcher r @ new"
    "\<forall>c\<in>set new. http_method (route c) \<in> set ?ms \<and> compiled c"
    "fst (add_methods ?ms (app_routes r) (routeMatcher r)) = Inr () \<longrightarrow>
        (\<forall>m\<in>set ?ms. \<forall>r\<in>set (app_routes r). http_method r = m \<or> http_method r = ''ALL'' \<longrightarrow>
            (\<exists>c\<in>set new. route c = r\<lparr>http_method := m\<rparr>))"
    by blast
  from ok have ok': "fst (add_methods ?ms (app_routes r) (routeMatcher r)) = Inr ()"
    and ts: "ts = toConvexRoutes (routeMatcher r @ new)"
    and t: "routeMatcher (snd (getRoutes r)) = routeMatcher r @ new"
    using n(1) by (auto simp: getRoutes_def split: prod.splits sum.splits)
  have noall: "''ALL'' \<notin> set ?ms" by (simp add: ROUTABLE_HTTP_METHODS_def)
  have A: "\<forall>c\<in>set new. http_method (route c) \<in> set ?ms \<and> http_method (route c) \<noteq> ''ALL''"
    using n(2) noall by metis
  have B: "\<forall>m\<in>set ?ms.
          (\<exists>c\<in>set new. route c = a\<lparr>http_method := m\<rparr> \<and> compiled c) \<and>
          (path a, m, convex_handler_of (handler a)) \<in> set ts \<and>
          (\<forall>url re. RegExp (regexStr (path a)) = Inr re \<and> test re url \<longrightarrow>
              find_route (routeMatcher (snd (getRoutes r))) m url \<noteq> None)"
  proof
    fix m assume m: "m \<in> set ?ms"
    with n(3) ok' a all obtain c where c: "c \<in> set new" "route c = a\<lparr>http_method := m\<rparr>"
      by blast
    with n(2) have cc: "compiled c" by blast
    have 1: "\<exists>c\<in>set new. route c = a\<lparr>http_method := m\<rparr> \<and> compiled c"
      using c cc by blast
    have "(path (route c), http_method (route c), convex_handler_of (handler (route c)))
          \<in> set ts"
      using c(1) unfolding ts toConvexRoutes_def convex_handler_of_def
      by (simp add: image_iff) blast
    then have 2: "(path a, m, convex_handler_of (handler a)) \<in> set ts" using c(2) by simp
    have 3: "\<forall>url re. RegExp (regexStr (path a)) = Inr re \<and> test re url \<longrightarrow>
              find_route (routeMatcher (snd (getRoutes r))) m url \<noteq> None"
    proof (intro allI impI)
      fix url re assume h: "RegExp (regexStr (path a)) = Inr re \<and> test re url"
      with cc c(2) have "regex c = re" by (simp add: compiled_def)
      with h c(2) have "hit m url c" by (simp add: hit_def)
      with c(1) show "find_route (routeMatcher (snd (getRoutes r))) m url \<noteq> None"
        unfolding t find_route_None_iff by auto
    qed
    from 1 2 3 show "(\<exists>c\<in>set new. route c = a\<lparr>http_method := m\<rparr> \<and> compiled c) \<and>
          (path a, m, convex_handler_of (handler a)) \<in> set ts \<and>
          (\<forall>url re. RegExp (regexStr (path a)) = Inr re \<and> test re url \<longrightarrow>
              find_route (routeMatcher (snd (getRoutes r))) m url \<noteq> None)" by blast
  qed
  have C: "\<forall>t m url p. find_route t m url = Some p \<longrightarrow>
          (\<exists>c\<in>set t. http_method (route c) = m \<and> path (route c) = p)"
    by (auto dest!: find_route_SomeD simp: hit_def)
  have D: "find_route (table_of [all_route]) ''GET'' ''/x'' = None" by code_simp
  from t A B C D show ?thesis by blast
qed

theorem all_expanded_at_refresh_witness:
  "fst (getRoutes (new_router [all_route])) =
     Inr [(''/x'', ''GET'', RouteHandler 0), (''/x'', ''POST'', RouteHandler 0),
          (''/x'', ''PUT'', RouteHandler 0), (''/x'', ''DELETE'', RouteHandler 0),
          (''/x'', ''OPTIONS'', RouteHandler 0), (''/x'', ''PATCH'', RouteHandler 0)] \<and>
   find_route (routeMatcher (snd (getRoutes (new_router [all_route])))) ''PATCH'' ''/x/'' \<noteq> None"
proof -
  let ?re = "Seq Bol (Seq (Chr CHR ''/'') (Seq (Chr CHR ''x'')
               (Seq (Opt (Chr CHR ''/'')) (Seq Eol Eps))))"
  have ok: "fst (getRoutes (new_router [all_route])) =
     Inr [(''/x'', ''GET'', RouteHandler 0), (''/x'', ''POST'', RouteHandler 0),
          (''/x'', ''PUT'', RouteHandler 0), (''/x'', ''DELETE'', RouteHandler 0),
          (''/x'', ''OPTIONS'', RouteHandler 0), (''/x'', ''PATCH'', RouteHandler 0)]"
    by code_simp
  have a: "all_route \<in> set (app_routes (new_router [all_route]))"
    by (simp add: new_router_def)
  have all: "http_method all_route = ''ALL''" by (simp add: all_route_def)
  have m: "''PATCH'' \<in> set ROUTABLE_HTTP_METHODS" by (simp add: ROUTABLE_HTTP_METHODS_def)
  have re: "RegExp (regexStr (path all_route)) = Inr ?re \<and> test ?re ''/x/''" by code_simp
  from all_expanded_at_refresh [OF ok a all] m re
  have "find_route (routeMatcher (snd (getRoutes (new_router [all_route])))) ''PATCH'' ''/x/'' \<noteq> None"
    by blast
  with ok show ?thesis ..
qed


subsection \<open>Edge-case patterns\<close>

lemma not_word_special:
  "\<not> is_word CHR ''/''" "\<not> is_word CHR ''*''" "\<not> is_word CHR '':''"
  by (simp_all add: is_word_def word_chars_def)

lemma star_meta: "CHR ''*'' \<in> set meta_chars"
  by (simp add: meta_chars_def)

lemma wf_segment_no_star: "wf_segment g \<Longrightarrow> CHR ''*'' \<notin> set (render g)"
  using star_meta not_word_special(2) by (cases g) (auto simp: list_all_iff)

lemma segments_path_no_star:
  "list_all wf_segment segs \<Longrightarrow> CHR ''*'' \<notin> set (segments_path segs)"
  by (induction segs) (auto simp: segments_path_def dest: wf_segment_no_star)

lemma replace_params_plain_append:
  "CHR '':'' \<notin> set s \<Longrightarrow> replace_params (s @ rest) = s @ replace_params rest"
  by (induction s) auto

lemma dropWhile_word_slash:
  "list_all is_word n \<Longrightarrow> rest = [] \<or> hd rest = CHR ''/'' \<Longrightarrow>
   dropWhile is_word (n @ rest) = rest"
  by (cases rest) (auto simp: list_all_iff dropWhile_append2 not_word_special)

lemma replace_params_param:
  assumes "n \<noteq> []" and "list_all is_word n" and "rest = [] \<or> hd rest = CHR ''/''"
  shows "replace_params (CHR '':'' # n @ rest) = ''([^/]+)'' @ replace_params rest"
proof -
  from assms(1,2) have "is_word (hd (n @ rest))" by (cases n) auto
  moreover from assms(1) have "n @ rest \<noteq> []" by simp
  ultimately show ?thesis
    by (simp add: dropWhile_word_slash [OF assms(2,3)])
qed

lemma replace_params_slash: "replace_params (CHR ''/'' # xs) = CHR ''/'' # replace_params xs"
  by simp

lemma replace_params_segment:
  assumes "wf_segment g" and "rest = [] \<or> hd rest = CHR ''/''"
  shows "replace_params (CHR ''/'' # render g @ rest) = CHR ''/'' # render_rx g @ replace_params rest"
proof (cases g)
  case (Literal s)
  with assms(1) have "CHR '':'' \<notin> set s" by (auto simp: list_all_iff)
  with Literal show ?thesis by (simp add: replace_params_plain_append)
next
  case (Param n)
  with assms(1) have n: "n \<noteq> []" "list_all is_word n" by simp_all
  have "replace_params (CHR '':'' # n @ rest) = ''([^/]+)'' @ replace_params rest"
    by (rule replace_params_param [OF n assms(2)])
  with Param show ?thesis
    by (simp only: replace_params_slash render.simps render_rx.simps append_Cons)
qed

lemma segments_path_head: "segments_path segs = [] \<or> hd (segments_path segs) = CHR ''/''"
  by (cases segs) (auto simp: segments_path_def)

lemma replace_params_segments:
  "list_all wf_segment segs \<Longrightarrow>
   replace_params (segments_path segs @ (if tr then ''/'' else [])) =
     segments_rx segs @ (if tr then ''/'' else [])"
proof (induction segs)
  case Nil
  show ?case by (simp add: segments_path_def segments_rx_def)
next
  case (Cons g segs)
  let ?rest = "segments_path segs @ (if tr then ''/'' else [])"
  have h: "?rest = [] \<or> hd ?rest = CHR ''/''"
    using segments_path_head [of segs] by (cases "segments_path segs") auto
  from Cons.prems have g: "wf_segment g" and r: "list_all wf_segment segs" by simp_all
  have "segments_path (g # segs) @ (if tr then ''/'' else []) = CHR ''/'' # render g @ ?rest"
    by (simp add: segments_path_def)
  moreover have "segments_rx (g # segs) @ (if tr then ''/'' else [])
       = CHR ''/'' # render_rx g @ segments_rx segs @ (if tr then ''/'' else [])"
    by (simp add: segments_rx_def)
  ultimately show ?case
    using replace_params_segment [OF g h] Cons.IH [OF r] by (simp only:)
qed

lemma parse_group:
  "mode st = Normal \<Longrightarrow>
   parse_chars st ''([^/]+)'' =
     Inr (push_atom (Grp (Seq (Plus (Cls True ''/'')) Eps)) st)"
  by (simp add: parse_step_def normal_step_def class_step_def push_atom_def quantify_def
      empty_frame_def close_frame_def mk_seq_def)

lemma stack_push_atom [simp]: "stack (push_atom a st) = stack st"
  by (simp add: push_atom_def)

lemma parse_segment:
  assumes "mode st = Normal" and "wf_segment g"
  shows "\<exists>st'. parse_chars st (CHR ''/'' # render_rx g) = Inr st' \<and> mode st' = Normal \<and>
               stack st' = stack st"
proof -
  have sl: "parse_step st CHR ''/'' = Inr (push_atom (Chr CHR ''/'') st)"
    using assms(1) by (simp add: parse_step_def normal_step_plain meta_chars_def)
  show ?thesis
  proof (cases g)
    case (Literal s)
    with assms(2) have "\<forall>c\<in>set s. c \<notin> set meta_chars" by (auto simp: list_all_iff)
    then have "parse_chars (push_atom (Chr CHR ''/'') st) s
                 = Inr (push_chars (push_atom (Chr CHR ''/'') st) s)"
      by (simp add: parse_chars_plain)
    with Literal sl show ?thesis by (simp add: push_chars_fields)
  next
    case (Param n)
    have "parse_chars (push_atom (Chr CHR ''/'') st) ''([^/]+)''
            = Inr (push_atom (Grp (Seq (Plus (Cls True ''/'')) Eps)) (push_atom (Chr CHR ''/'') st))"
      by (rule parse_group) simp
    with Param sl show ?thesis by (simp del: parse_chars.simps add: parse_chars.simps(2) [of st])
  qed
qed

lemma parse_segments:
  "mode st = Normal \<Longrightarrow> list_all wf_segment segs \<Longrightarrow>
   \<exists>st'. parse_chars st (segments_rx segs) = Inr st' \<and> mode st' = Normal \<and> stack st' = stack st"
proof (induction segs arbitrary: st)
  case Nil
  then show ?case by (simp add: segments_rx_def)
next
  case (Cons g segs)
  from Cons.prems have g: "wf_segment g" and r: "list_all wf_segment segs" by simp_all
  from parse_segment [OF Cons.prems(1) g] obtain s1 where
    s1: "parse_chars st (CHR ''/'' # render_rx g) = Inr s1" "mode s1 = Normal" "stack s1 = stack st"
    by blast
  from Cons.IH [OF s1(2) r] obtain s2 where
    s2: "parse_chars s1 (segments_rx segs) = Inr s2" "mode s2 = Normal" "stack s2 = stack s1"
    by blast
  have "segments_rx (g # segs) = (CHR ''/'' # render_rx g) @ segments_rx segs"
    by (simp add: segments_rx_def)
  then have "parse_chars st (segments_rx (g # segs)) = Inr s2"
    using s1(1) s2(1) by (simp only: parse_chars_append) simp
  with s2 s1 show ?case by auto
qed


lemma segments_rx_snoc: "segments_rx (xs @ [g]) = segments_rx xs @ CHR ''/'' # render_rx g"
  by (simp add: segments_rx_def)

lemma render_rx_last: "wf_segment g \<Longrightarrow> last (CHR ''/'' # render_rx g) \<noteq> CHR ''/''"
  by (cases g) (auto simp: list_all_iff)

lemma strip_segments_rx:
  assumes "list_all wf_segment segs"
  shows "strip_trailing_slash (segments_rx segs @ (if tr then ''/'' else [])) = segments_rx segs"
proof (cases tr)
  case True
  then show ?thesis by (simp add: strip_trailing_slash_def)
next
  case False
  show ?thesis
  proof (cases segs rule: rev_cases)
    case Nil
    with False show ?thesis by (simp add: strip_trailing_slash_def segments_rx_def)
  next
    case (snoc xs g)
    with assms have "wf_segment g" by simp
    then have "last (segments_rx segs) \<noteq> CHR ''/''"
      using render_rx_last [of g] unfolding snoc segments_rx_snoc by simp
    with False show ?thesis by (simp add: strip_trailing_slash_def)
  qed
qed

lemma regexStr_segments:
  assumes "list_all wf_segment segs"
  shows "regexStr (path_of segs tr) = ''^'' @ segments_rx segs @ ''/?$''"
    and "regexStr_v0 (path_of segs tr) = segments_rx segs @ (if tr then ''/'' else []) @ ''$''"
proof -
  have ns: "CHR ''*'' \<notin> set (path_of segs tr)"
    using segments_path_no_star [OF assms] by (simp add: path_of_def)
  have rp: "replace_params (replace_star (path_of segs tr))
              = segments_rx segs @ (if tr then ''/'' else [])"
    by (simp only: replace_star_id [OF ns]) (simp only: path_of_def replace_params_segments [OF assms])
  show "regexStr (path_of segs tr) = ''^'' @ segments_rx segs @ ''/?$''"
    unfolding regexStr_def rp strip_segments_rx [OF assms] ..
  show "regexStr_v0 (path_of segs tr) = segments_rx segs @ (if tr then ''/'' else []) @ ''$''"
    unfolding regexStr_v0_def rp by simp
qed

lemma RegExp_segments:
  assumes "list_all wf_segment segs"
  shows "\<exists>re. RegExp (regexStr (path_of segs tr)) = Inr re"
proof -
  let ?st1 = "\<lparr>mode = Normal, cur = \<lparr>alts = [], items = [Bol], lastq = NoAtom\<rparr>, stack = []\<rparr>"
  have "mode ?st1 = Normal" by simp
  from parse_segments [OF this assms] obtain s2 where
    s2: "parse_chars ?st1 (segments_rx segs) = Inr s2" "mode s2 = Normal" "stack s2 = []"
    by auto
  have "parse_chars init_pstate (''^'' @ segments_rx segs @ ''/?$'')
          = parse_chars ?st1 (segments_rx segs @ ''/?$'')"
    by (simp add: parse_head)
  also have "\<dots> = parse_chars s2 ''/?$''"
    by (simp only: parse_chars_append s2(1)) simp
  finally have pc: "parse_chars init_pstate (''^'' @ segments_rx segs @ ''/?$'') =
     Inr (s2\<lparr>cur := (cur s2)\<lparr>items := Eol # Opt (Chr CHR ''/'') # items (cur s2), lastq := NoAtom\<rparr>\<rparr>)"
    by (simp only: parse_tail [OF s2(2)])
  show ?thesis
    unfolding regexStr_segments(1) [OF assms] RegExp_def pc
    by (simp add: finish_def s2)
qed

lemma parse_dollar:
  "mode st = Normal \<Longrightarrow> parse_chars st ''$'' = Inr (push_assertion Eol st)"
  by (simp add: parse_step_def normal_step_def)

lemma parse_slash_dollar:
  "mode st = Normal \<Longrightarrow>
   parse_chars st ''/$'' = Inr (push_assertion Eol (push_atom (Chr CHR ''/'') st))"
  by (simp add: parse_step_def normal_step_def)

lemma RegExp_v0_segments:
  assumes "list_all wf_segment segs"
  shows "\<exists>re. RegExp (regexStr_v0 (path_of segs tr)) = Inr re"
proof -
  have "mode init_pstate = Normal" by (simp add: init_pstate_def)
  from parse_segments [OF this assms] obtain s2 where
    s2: "parse_chars init_pstate (segments_rx segs) = Inr s2" "mode s2 = Normal"
        "stack s2 = []"
    by (auto simp: init_pstate_def)
  have "\<exists>s3. parse_chars s2 ((if tr then ''/'' else []) @ ''$'') = Inr s3 \<and>
              mode s3 = Normal \<and> stack s3 = []"
    using s2(2,3) parse_dollar [OF s2(2)] parse_slash_dollar [OF s2(2)]
    by (cases tr) (auto simp: push_assertion_def push_atom_def)
  then obtain s3 where s3: "parse_chars s2 ((if tr then ''/'' else []) @ ''$'') = Inr s3"
      "mode s3 = Normal" "stack s3 = []" by blast
  have pc: "parse_chars init_pstate (segments_rx segs @ (if tr then ''/'' else []) @ ''$'') = Inr s3"
    by (subst parse_chars_append) (simp only: s2(1) s3(1) sum.case)
  show ?thesis
    unfolding regexStr_segments(2) [OF assms] RegExp_def pc
    by (simp add: finish_def s3)
qed

lemma add_entry:
  "RegExp (regexStr (path r)) = Inr re \<Longrightarrow>
   \<exists>c. add r t = (Inr (), t @ [c]) \<and> route c = r \<and> compiled c"
  by (simp add: add_def compiled_def)

lemma add_v0_entry:
  "RegExp (regexStr_v0 (path r)) = Inr re \<Longrightarrow>
   \<exists>c. add_v0 r u = (Inr (), u @ [c]) \<and> route_v0 c = r \<and> compiled_v0 c"
  by (simp add: add_v0_def compiled_v0_def)

text \<open>
  C9. In both matchers \<open>add\<close> returns normally, for any method, handler and table, on
  the empty path, on the path \<open>*\<close> and on every path made of literal and parameter
  segments (any number of parameters, with or without a trailing slash), and appends to
  the table one entry holding the route and its compiled pattern. The patterns match: in
  the later builds the empty path matches the empty url and \<open>/\<close> only, \<open>*\<close> matches any
  url, and \<open>/a/:b/:c\<close> matches \<open>/a/1/2\<close> but not \<open>/a/1\<close>; in the single-pass matcher the
  empty path, compiled to \<open>$\<close>, matches every url, \<open>*\<close> matches any url, and \<open>/a/:b/:c\<close>
  matches \<open>/a/1/2\<close> but not \<open>/a/1\<close>.
\<close>

theorem add_compiles_edge_patterns:
  "(\<exists>c. add \<lparr>http_method = m, path = [], handler = h\<rparr> t = (Inr (), t @ [c]) \<and>
        route c = \<lparr>http_method = m, path = [], handler = h\<rparr> \<and> compiled c) \<and>
   (\<exists>c. add \<lparr>http_method = m, path = ''*'', handler = h\<rparr> t = (Inr (), t @ [c]) \<and>
        route c = \<lparr>http_method = m, path = ''*'', handler = h\<rparr> \<and> compiled c) \<and>
   (\<exists>c. add_v0 \<lparr>http_method = m, path = [], handler = h\<rparr> u = (Inr (), u @ [c]) \<and>
        route_v0 c = \<lparr>http_method = m, path = [], handler = h\<rparr> \<and> compiled_v0 c) \<and>
   (\<exists>c. add_v0 \<lparr>http_method = m, path = ''*'', handler = h\<rparr> u = (Inr (), u @ [c]) \<and>
        route_v0 c = \<lparr>http_method = m, path = ''*'', handler = h\<rparr> \<and> compiled_v0 c) \<and>
   (list_all wf_segment segs \<longrightarrow>
      (\<exists>c. add \<lparr>http_method = m, path = path_of segs tr, handler = h\<rparr> t = (Inr (), t @ [c]) \<and>
           route c = \<lparr>http_method = m, path = path_of segs tr, handler = h\<rparr> \<and> compiled c) \<and>
      (\<exists>c. add_v0 \<lparr>http_method = m, path = path_of segs tr, handler = h\<rparr> u = (Inr (), u @ [c]) \<and>
           route_v0 c = \<lparr>http_method = m, path = path_of segs tr, handler = h\<rparr> \<and>
           compiled_v0 c)) \<and>
   find_route (table_of [empty_route]) ''GET'' [] = Some [] \<and>
   find_route (table_of [empty_route]) ''GET'' ''/'' = Some [] \<and>
   find_route (table_of [empty_route]) ''GET'' ''/a'' = None \<and>
   find_route (table_of [star_route]) ''GET'' ''/any/url'' = Some ''*'' \<and>
   find_route (table_of [two_params_route]) ''GET'' ''/a/1/2'' = Some ''/a/:b/:c'' \<and>
   find_route (table_of [two_params_route]) ''GET'' ''/a/1'' = None \<and>
   find_route_v2 (snd (add empty_route [])) ''GET'' ''/'' = Some [] \<and>
   find_route_v2 (snd (add star_route [])) ''GET'' ''/any/url'' = Some ''*'' \<and>
   find_route_v2 (snd (add two_params_route [])) ''GET'' ''/a/1/2'' = Some ''/a/:b/:c'' \<and>
   find_v0 (snd (add_v0 empty_route [])) ''GET'' [] = Some [] \<and>
   find_v0 (snd (add_v0 empty_route [])) ''GET'' ''/a'' = Some [] \<and>
   find_v0 (snd (add_v0 star_route [])) ''GET'' ''/any/url'' = Some ''*'' \<and>
   find_v0 (snd (add_v0 two_params_route [])) ''GET'' ''/a/1/2'' = Some ''/a/:b/:c'' \<and>
   find_v0 (snd (add_v0 two_params_route [])) ''GET'' ''/a/1'' = None"
proof -
  have e: "RegExp (regexStr []) = Inr (Seq Bol (Seq (Opt (Chr CHR ''/'')) (Seq Eol Eps)))"
    by code_simp
  have s: "RegExp (regexStr ''*'') =
      Inr (Seq Bol (Seq (Star AnyCh) (Seq (Opt (Chr CHR ''/'')) (Seq Eol Eps))))"
    by code_simp
  have e0: "RegExp (regexStr_v0 []) = Inr (Seq Eol Eps)" by code_simp
  have s0: "RegExp (regexStr_v0 ''*'') = Inr (Seq (Star AnyCh) (Seq Eol Eps))" by code_simp
  have 1: "\<exists>c. add \<lparr>http_method = m, path = [], handler = h\<rparr> t = (Inr (), t @ [c]) \<and>
        route c = \<lparr>http_method = m, path = [], handler = h\<rparr> \<and> compiled c"
    by (rule add_entry) (simp add: e)
  have 2: "\<exists>c. add \<lparr>http_method = m, path = ''*'', handler = h\<rparr> t = (Inr (), t @ [c]) \<and>
        route c = \<lparr>http_method = m, path = ''*'', handler = h\<rparr> \<and> compiled c"
    by (rule add_entry) (simp add: s)
  have 3: "\<exists>c. add_v0 \<lparr>http_method = m, path = [], handler = h\<rparr> u = (Inr (), u @ [c]) \<and>
        route_v0 c = \<lparr>http_method = m, path = [], handler = h\<rparr> \<and> compiled_v0 c"
    by (rule add_v0_entry) (simp add: e0)
  have 4: "\<exists>c. add_v0 \<lparr>http_method = m, path = ''*'', handler = h\<rparr> u = (Inr (), u @ [c]) \<and>
        route_v0 c = \<lparr>http_method = m, path = ''*'', handler = h\<rparr> \<and> compiled_v0 c"
    by (rule add_v0_entry) (simp add: s0)
  have 5: "list_all wf_segment segs \<longrightarrow>
      (\<exists>c. add \<lparr>http_method = m, path = path_of segs tr, handler = h\<rparr> t = (Inr (), t @ [c]) \<and>
           route c = \<lparr>http_method = m, path = path_of segs tr, handler = h\<rparr> \<and> compiled c) \<and>
      (\<exists>c. add_v0 \<lparr>http_method = m, path = path_of segs tr, handler = h\<rparr> u = (Inr (), u @ [c]) \<and>
           route_v0 c = \<lparr>http_method = m, path = path_of segs tr, handler = h\<rparr> \<and>
           compiled_v0 c)"
  proof
    assume w: "list_all wf_segment segs"
    from RegExp_segments [OF w, of tr] obtain re where
      re: "RegExp (regexStr (path_of segs tr)) = Inr re" ..
    have a: "\<exists>c. add \<lparr>http_method = m, path = path_of segs tr, handler = h\<rparr> t = (Inr (), t @ [c]) \<and>
           route c = \<lparr>http_method = m, path = path_of segs tr, handler = h\<rparr> \<and> compiled c"
      by (rule add_entry [of _ re]) (simp add: re)
    from RegExp_v0_segments [OF w, of tr] obtain re0 where
      re0: "RegExp (regexStr_v0 (path_of segs tr)) = Inr re0" ..
    have b: "\<exists>c. add_v0 \<lparr>http_method = m, path = path_of segs tr, handler = h\<rparr> u = (Inr (), u @ [c]) \<and>
           route_v0 c = \<lparr>http_method = m, path = path_of segs tr, handler = h\<rparr> \<and>
           compiled_v0 c"
      by (rule add_v0_entry [of _ re0]) (simp add: re0)
    from a b show "(\<exists>c. add \<lparr>http_method = m, path = path_of segs tr, handler = h\<rparr> t = (Inr (), t @ [c]) \<and>
           route c = \<lparr>http_method = m, path = path_of segs tr, handler = h\<rparr> \<and> compiled c) \<and>
      (\<exists>c. add_v0 \<lparr>http_method = m, path = path_of segs tr, handler = h\<rparr> u = (Inr (), u @ [c]) \<and>
           route_v0 c = \<lparr>http_method = m, path = path_of segs tr, handler = h\<rparr> \<and>
           compiled_v0 c)" ..
  qed
  have 6: "find_route (table_of [empty_route]) ''GET'' [] = Some []" by code_simp
  have 7: "find_route (table_of [empty_route]) ''GET'' ''/'' = Some []" by code_simp
  have 8: "find_route (table_of [empty_route]) ''GET'' ''/a'' = None" by code_simp
  have 9: "find_route (table_of [star_route]) ''GET'' ''/any/url'' = Some ''*''" by code_simp
  have 10: "find_route (table_of [two_params_route]) ''GET'' ''/a/1/2'' = Some ''/a/:b/:c''"
    by code_simp
  have 11: "find_route (table_of [two_params_route]) ''GET'' ''/a/1'' = None" by code_simp
  have 12: "find_route_v2 (snd (add empty_route [])) ''GET'' ''/'' = Some []" by code_simp
  have 13: "find_route_v2 (snd (add star_route [])) ''GET'' ''/any/url'' = Some ''*''"
    by code_simp
  have 14: "find_route_v2 (snd (add two_params_route [])) ''GET'' ''/a/1/2'' = Some ''/a/:b/:c''"
    by code_simp
  have 15: "find_v0 (snd (add_v0 empty_route [])) ''GET'' [] = Some []" by code_simp
  have 16: "find_v0 (snd (add_v0 empty_route [])) ''GET'' ''/a'' = Some []" by code_simp
  have 17: "find_v0 (snd (add_v0 star_route [])) ''GET'' ''/any/url'' = Some ''*''"
    by code_simp
  have 18: "find_v0 (snd (add_v0 two_params_route [])) ''GET'' ''/a/1/2'' = Some ''/a/:b/:c''"
    by code_simp
  have 19: "find_v0 (snd (add_v0 two_params_route [])) ''GET'' ''/a/1'' = None" by code_simp
  from 1 2 3 4 5 6 7 8 9 10 11 12 13 14 15 16 17 18 19 show ?thesis by (intro conjI)
qed

theorem add_compiles_edge_patterns_witness:
  "list_all wf_segment [Literal ''a'', Param ''b'', Param ''c''] \<and>
   path_of [Literal ''a'', Param ''b'', Param ''c''] False = ''/a/:b/:c'' \<and>
   (\<exists>c. add \<lparr>http_method = ''GET'', path = path_of [Literal ''a'', Param ''b'', Param ''c''] False,
              handler = HFunction 0\<rparr> [] = (Inr (), [] @ [c]) \<and> compiled c) \<and>
   (\<exists>c. add_v0 \<lparr>http_method = ''GET'', path = path_of [Literal ''a'', Param ''b'', Param ''c''] False,
              handler = HFunction 0\<rparr> [] = (Inr (), [] @ [c]) \<and> compiled_v0 c)"
proof -
  have w: "list_all wf_segment [Literal ''a'', Param ''b'', Param ''c'']" by code_simp
  have p: "path_of [Literal ''a'', Param ''b'', Param ''c''] False = ''/a/:b/:c''" by code_simp
  from add_compiles_edge_patterns [of "''GET''" "HFunction 0" "[]" "[]"
      "[Literal ''a'', Param ''b'', Param ''c'']" False] w p
  show ?thesis by blast
qed


end
